theory Spec2Isabelle
  imports Complex_Main "HOL-Library.Sublist" "HOL-Library.AList"
begin

section \<open>Strings, as \<^verbatim>\<open>organizer.py\<close> uses them\<close>

text \<open>
  A Python \<^verbatim>\<open>str\<close> is modelled as a \<^typ>\<open>string\<close>. Characters are bytes, so the
  string methods below act on ASCII the way Python does and leave every other byte alone.
\<close>

text \<open>\<^verbatim>\<open>str.isspace\<close> on one ASCII character: TAB, LF, VT, FF, CR, FS, GS, RS, US and space.\<close>

definition isspace :: "char \<Rightarrow> bool" where
  "isspace c = (of_char c \<in> {9, 10, 11, 12, 13, 28, 29, 30, 31, 32 :: nat})"

text \<open>\<^verbatim>\<open>s.strip()\<close>: drop leading and trailing whitespace.\<close>

definition strip :: "string \<Rightarrow> string" where
  "strip s = rev (dropWhile isspace (rev (dropWhile isspace s)))"

text \<open>\<^verbatim>\<open>s.lower()\<close>: \<open>A\<close> .. \<open>Z\<close> become \<open>a\<close> .. \<open>z\<close>.\<close>

definition lower_char :: "char \<Rightarrow> char" where
  "lower_char c =
     (if 65 \<le> (of_char c :: nat) \<and> (of_char c :: nat) \<le> 90
      then char_of ((of_char c :: nat) + 32) else c)"

definition lower :: "string \<Rightarrow> string" where
  "lower s = map lower_char s"

text \<open>
  \<^verbatim>\<open>s.split(sep)\<close> for a one-character separator. The result is never empty:
  \<^verbatim>\<open>''.split(';') == ['']\<close>.
\<close>

fun split :: "char \<Rightarrow> string \<Rightarrow> string list" where
  "split sep [] = [[]]"
| "split sep (c # cs) =
     (if c = sep then [] # split sep cs
      else (c # hd (split sep cs)) # tl (split sep cs))"

text \<open>\<^verbatim>\<open>key in s\<close>: \<open>key\<close> occurs in \<open>s\<close> as a contiguous substring.\<close>

fun contains :: "string \<Rightarrow> string \<Rightarrow> bool" where
  "contains key [] = (key = [])"
| "contains key (c # cs) = (prefix key (c # cs) \<or> contains key cs)"

text \<open>\<^verbatim>\<open>s.rfind('.')\<close>: the index of the last dot, or \<open>-1\<close>.\<close>

fun rfind_dot :: "string \<Rightarrow> int" where
  "rfind_dot [] = - 1"
| "rfind_dot (c # cs) =
     (if rfind_dot cs \<noteq> - 1 then 1 + rfind_dot cs
      else if c = CHR ''.'' then 0 else - 1)"

text \<open>Decimal digits of a natural number, most significant first.\<close>

fun digits :: "nat \<Rightarrow> string" where
  "digits n =
     (if n < 10 then [char_of (48 + n)]
      else digits (n div 10) @ [char_of (48 + n mod 10)])"

declare digits.simps [simp del]

text \<open>The format \<^verbatim>\<open>f"{n}"\<close> of an integer.\<close>

definition str_int :: "int \<Rightarrow> string" where
  "str_int n = (if n < 0 then CHR ''-'' # digits (nat (- n)) else digits (nat n))"

text \<open>The format \<^verbatim>\<open>f"{n:02d}"\<close>: at least two characters, padded on the left with zeros.\<close>

definition fmt_02d :: "int \<Rightarrow> string" where
  "fmt_02d n = (if 0 \<le> n \<and> n < 10 then CHR ''0'' # str_int n else str_int n)"

section \<open>Paths\<close>

text \<open>
  A path is the list of its components below the filesystem root, so \<open>[]\<close> is the root
  and \<open>p @ [n]\<close> is the entry \<open>n\<close> of the directory \<open>p\<close>. Symbolic links, drive
  letters and the kernel's resolution of \<^verbatim>\<open>..\<close> are not modelled: a component is a
  plain name.
\<close>

type_synonym path = "string list"

text \<open>\<^verbatim>\<open>Path.parent\<close>; the root is its own parent.\<close>

definition parent :: "path \<Rightarrow> path" where
  "parent p = butlast p"

text \<open>\<^verbatim>\<open>Path.name\<close>, the last component (empty for the root).\<close>

definition name :: "path \<Rightarrow> string" where
  "name p = (if p = [] then [] else last p)"

text \<open>
  The components \<^verbatim>\<open>pathlib\<close> reads from a string: split at \<^verbatim>\<open>/\<close>, with empty
  components and \<^verbatim>\<open>.\<close> dropped.
\<close>

definition parse_parts :: "string \<Rightarrow> path" where
  "parse_parts s = filter (\<lambda>c. c \<noteq> [] \<and> c \<noteq> ''.'') (split CHR ''/'' s)"

text \<open>
  \<^verbatim>\<open>directory / s\<close> for a string \<open>s\<close>: an absolute \<open>s\<close> replaces the directory,
  anything else is appended to it.
\<close>

definition path_join :: "path \<Rightarrow> string \<Rightarrow> path" where
  "path_join d s =
     (if s \<noteq> [] \<and> hd s = CHR ''/'' then parse_parts s else d @ parse_parts s)"

text \<open>
  \<^verbatim>\<open>Path.suffix\<close> of a file name (pathlib up to Python 3.13): the text from the last dot
  on, unless that dot is the first or the last character of the name.
\<close>

definition suffix_of :: "string \<Rightarrow> string" where
  "suffix_of nm =
     (let i = rfind_dot nm
      in if 0 < i \<and> i < int (length nm) - 1 then drop (nat i) nm else [])"

section \<open>Exceptions, the log, the filesystem\<close>

text \<open>The exceptions that the code raises or catches.\<close>

datatype exn =
    ValueError string
  | FileNotFoundError
  | FileExistsError
  | NotADirectoryError
  | IsADirectoryError
  | ShutilError
  | OSError

text \<open>What the logger is asked to write, one constructor for each message of the source.\<close>

datatype message =
    Starting string
  | KeywordRedefined string string
  | NoFiles
  | Found nat
  | Moved path path
  | ErrorMoving string exn
  | ErrorProcessingTime string exn
  | SavedHistory
  | ErrorSavingHistory exn
  | Complete nat
  | ErrorReadingHistory exn
  | Attempting
  | HistoryEmpty
  | UndoMoved path path
  | UndoNotFound path
  | UndoError path exn
  | RemovedFolder path
  | CouldNotRemove path exn
  | RemovedHistoryFile
  | UpdatedHistory
  | ErrorUpdatingHistory exn

datatype level = INFO | WARNING | ERROR

text \<open>
  A move record is the pair (source, destination), a batch the records of one run, and the
  history stack the list of batches, newest last.
\<close>

type_synonym move_record = "path \<times> path"
type_synonym batch = "move_record list"

text \<open>
  What a regular file holds, as far as \<^verbatim>\<open>json.load\<close> can tell: bytes that are not JSON
  (the number tells two such files apart), JSON whose top level is not an array, or a JSON
  array of batches, which is what \<^verbatim>\<open>json.dump\<close> writes for a history stack. An array
  with other elements is not represented.
\<close>

datatype content = Bytes nat | JsonOther | JsonArray "batch list"

text \<open>The fields of the \<^verbatim>\<open>datetime\<close> that \<^verbatim>\<open>datetime.fromtimestamp\<close> returns.\<close>

record datetime =
  year :: int
  month :: int
  day :: int
  hour :: int
  minute :: int
  second :: int

text \<open>
  A filesystem entry is a directory or a regular file with its modification time and
  content. The time is the \<^verbatim>\<open>datetime\<close> that \<^verbatim>\<open>datetime.fromtimestamp\<close> makes of
  \<^verbatim>\<open>st_mtime\<close>, or \<open>None\<close> where that conversion raises.
\<close>

datatype node = Dir | File "datetime option" content

text \<open>
  The filesystem lists its entries by path. The order of the list is the order in which a
  directory scan reports them. The root always exists and is not listed.
\<close>

type_synonym fs = "(path \<times> node) list"

text \<open>
  Everything a call can change: the filesystem, the log, and the percentages handed to the
  progress callback so far. Percentages are exact rationals, not floats.
\<close>

record world =
  files :: fs
  logs :: "(level \<times> message) list"
  progress :: "rat list"

definition logger :: "level \<Rightarrow> message \<Rightarrow> world \<Rightarrow> world" where
  "logger l m w = w\<lparr>logs := logs w @ [(l, m)]\<rparr>"

definition lookup :: "fs \<Rightarrow> path \<Rightarrow> node option" where
  "lookup f p = (if p = [] then Some Dir else map_of f p)"

definition exists :: "fs \<Rightarrow> path \<Rightarrow> bool" where
  "exists f p = (lookup f p \<noteq> None)"

definition is_dir :: "fs \<Rightarrow> path \<Rightarrow> bool" where
  "is_dir f p = (lookup f p = Some Dir)"

definition is_file :: "fs \<Rightarrow> path \<Rightarrow> bool" where
  "is_file f p = (case lookup f p of Some (File t c) \<Rightarrow> True | _ \<Rightarrow> False)"

text \<open>
  The error of a system call on a path that does not exist: \<^verbatim>\<open>ENOTDIR\<close> when a regular
  file stands where a directory of the path should be, \<^verbatim>\<open>ENOENT\<close> otherwise.
\<close>

definition missing_error :: "fs \<Rightarrow> path \<Rightarrow> exn" where
  "missing_error f p =
     (if list_ex (is_file f) (prefixes (butlast p)) then NotADirectoryError
      else FileNotFoundError)"

text \<open>The entries of a directory, \<^verbatim>\<open>Path.iterdir\<close>, in scan order.\<close>

definition children :: "fs \<Rightarrow> path \<Rightarrow> path list" where
  "children f d = filter (\<lambda>p. p \<noteq> [] \<and> butlast p = d) (map fst f)"

definition iterdir :: "fs \<Rightarrow> path \<Rightarrow> exn + path list" where
  "iterdir f d =
     (case lookup f d of
        Some Dir \<Rightarrow> Inr (children f d)
      | Some (File t c) \<Rightarrow> Inl NotADirectoryError
      | None \<Rightarrow> Inl (missing_error f d))"

text \<open>
  \<^verbatim>\<open>Path.mkdir(parents=True, exist_ok=True)\<close>: an existing directory is accepted, a
  regular file in the way is an error, and a missing parent is made first.
\<close>

function mkdir_parents :: "fs \<Rightarrow> path \<Rightarrow> exn + fs" where
  "mkdir_parents f p =
     (case lookup f p of
        Some Dir \<Rightarrow> Inr f
      | Some (File t c) \<Rightarrow> Inl FileExistsError
      | None \<Rightarrow>
          (case lookup f (parent p) of
             Some Dir \<Rightarrow> Inr (f @ [(p, Dir)])
           | Some (File t c) \<Rightarrow> Inl NotADirectoryError
           | None \<Rightarrow>
               (case mkdir_parents f (parent p) of
                  Inl e \<Rightarrow> Inl e
                | Inr f' \<Rightarrow> Inr (f' @ [(p, Dir)]))))"
  by pat_completeness auto
termination
  by (relation "measure (\<lambda>(f, p). length p)") (auto simp: lookup_def parent_def split: if_splits)

declare mkdir_parents.simps [simp del]

text \<open>
  \<^verbatim>\<open>os.rename\<close> of the subtree at \<open>src\<close> to the free place \<open>dst\<close>: every entry at or
  below \<open>src\<close> gets the new prefix.
\<close>

definition relocate :: "fs \<Rightarrow> path \<Rightarrow> path \<Rightarrow> fs" where
  "relocate f src dst =
     map (\<lambda>(p, n). (if prefix src p then dst @ drop (length src) p else p, n)) f"

text \<open>
  \<^verbatim>\<open>os.rename(src, real_dst)\<close> with the copy fallback of \<^verbatim>\<open>shutil.move\<close>, for a
  \<open>real_dst\<close> that is not a directory. A regular file replaces a regular file at the
  destination. A directory moves to a free place only, and the fallback
  (\<^verbatim>\<open>copytree\<close>, which makes missing parents) applies when the parent of the place is
  missing.
\<close>

definition rename_or_copy :: "fs \<Rightarrow> path \<Rightarrow> path \<Rightarrow> exn + fs" where
  "rename_or_copy f src real_dst =
     (case lookup f src of
        None \<Rightarrow> Inl (missing_error f src)
      | Some (File t c) \<Rightarrow>
          (if src = real_dst then Inr f
           else (case lookup f (parent real_dst) of
                   Some Dir \<Rightarrow>
                     Inr (AList.update real_dst (File t c) (AList.delete src f))
                 | Some (File t' c') \<Rightarrow> Inl NotADirectoryError
                 | None \<Rightarrow> Inl (missing_error f real_dst)))
      | Some Dir \<Rightarrow>
          (if src = [] \<or> prefix src real_dst then Inl ShutilError
           else if exists f real_dst then Inl FileExistsError
           else (case mkdir_parents f (parent real_dst) of
                   Inl e \<Rightarrow> Inl e
                 | Inr f' \<Rightarrow> Inr (relocate f' src real_dst))))"

text \<open>
  \<^verbatim>\<open>shutil.move(src, dst)\<close>. When \<open>dst\<close> is a directory the source is moved into it
  under its own name, which must be free there; a source that is that directory itself is
  left alone.
\<close>

definition shutil_move :: "fs \<Rightarrow> path \<Rightarrow> path \<Rightarrow> exn + fs" where
  "shutil_move f src dst =
     (if is_dir f dst then
        (if src = dst then Inr f
         else (let real_dst = dst @ [name src]
               in if exists f real_dst then Inl ShutilError
                  else rename_or_copy f src real_dst))
      else rename_or_copy f src dst)"

text \<open>\<^verbatim>\<open>os.rmdir\<close>: only an empty directory other than the root can be removed.\<close>

definition rmdir :: "fs \<Rightarrow> path \<Rightarrow> exn + fs" where
  "rmdir f p =
     (case lookup f p of
        None \<Rightarrow> Inl (missing_error f p)
      | Some (File t c) \<Rightarrow> Inl NotADirectoryError
      | Some Dir \<Rightarrow>
          (if p = [] \<or> children f p \<noteq> [] then Inl OSError
           else Inr (AList.delete p f)))"

text \<open>\<^verbatim>\<open>os.remove\<close>: removes a regular file.\<close>

definition remove :: "fs \<Rightarrow> path \<Rightarrow> exn + fs" where
  "remove f p =
     (case lookup f p of
        None \<Rightarrow> Inl (missing_error f p)
      | Some Dir \<Rightarrow> Inl IsADirectoryError
      | Some (File t c) \<Rightarrow> Inr (AList.delete p f))"

text \<open>
  \<^verbatim>\<open>open(p, 'w')\<close> followed by \<^verbatim>\<open>json.dump\<close>: the file is created or overwritten, and
  stamped with the time \<open>now\<close>.
\<close>

definition write_json :: "fs \<Rightarrow> path \<Rightarrow> datetime option \<Rightarrow> batch list \<Rightarrow> exn + fs" where
  "write_json f p now stack =
     (case lookup f p of
        Some Dir \<Rightarrow> Inl IsADirectoryError
      | _ \<Rightarrow>
          (case lookup f (parent p) of
             Some Dir \<Rightarrow> Inr (AList.update p (File now (JsonArray stack)) f)
           | Some (File t c) \<Rightarrow> Inl NotADirectoryError
           | None \<Rightarrow> Inl (missing_error f p)))"

section \<open>The organizer\<close>

text \<open>
  The fields of a \<^verbatim>\<open>FileOrganizer\<close>: the directory, whether a progress callback was
  given, and the time the system clock shows while the call runs. The logger is the
  \<open>logs\<close> field of the world.
\<close>

record organizer =
  source_directory :: path
  progress_callback :: bool
  clock :: "datetime option"

definition history_file :: "organizer \<Rightarrow> path" where
  "history_file self = source_directory self @ [''.organizer_history.json'']"

text \<open>
  \<^verbatim>\<open>_load_history_stack\<close>. The body of the \<^verbatim>\<open>try\<close> either yields the parsed value or
  raises; \<^verbatim>\<open>json.JSONDecodeError\<close> is the one exception that is not logged.
\<close>

datatype load_outcome = Parsed content | DecodeError | Raised exn

definition open_and_load :: "fs \<Rightarrow> path \<Rightarrow> load_outcome" where
  "open_and_load f p =
     (case lookup f p of
        None \<Rightarrow> Raised (missing_error f p)
      | Some Dir \<Rightarrow> Raised IsADirectoryError
      | Some (File t (Bytes n)) \<Rightarrow> DecodeError
      | Some (File t c) \<Rightarrow> Parsed c)"

definition load_history_stack :: "organizer \<Rightarrow> world \<Rightarrow> (exn + batch list) \<times> world" where
  "load_history_stack self w =
     (if \<not> exists (files w) (history_file self) then (Inr [], w)
      else (case open_and_load (files w) (history_file self) of
              Parsed (JsonArray stack) \<Rightarrow> (Inr stack, w)
            | Parsed c \<Rightarrow> (Inr [], w)
            | DecodeError \<Rightarrow> (Inr [], w)
            | Raised e \<Rightarrow> (Inr [], logger ERROR (ErrorReadingHistory e) w)))"

text \<open>\<^verbatim>\<open>_report_progress\<close>.\<close>

definition report_progress :: "organizer \<Rightarrow> nat \<Rightarrow> nat \<Rightarrow> world \<Rightarrow> world" where
  "report_progress self current total_files w =
     (if progress_callback self \<and> total_files > 0
      then w\<lparr>progress := progress w @ [of_nat current / of_nat total_files * 100]\<rparr>
      else w)"

text \<open>
  \<^verbatim>\<open>_move_file\<close>: make the folder, move the file into it under its own name, and append
  the record to the batch. Any exception is logged and gives \<open>False\<close>.
\<close>

definition move_file ::
  "path \<Rightarrow> path \<Rightarrow> batch \<times> world \<Rightarrow> bool \<times> batch \<times> world" where
  "move_file item destination_folder hw =
     (case hw of (history_list, w) \<Rightarrow>
        (case mkdir_parents (files w) destination_folder of
           Inl e \<Rightarrow> (False, history_list, logger ERROR (ErrorMoving (name item) e) w)
         | Inr f1 \<Rightarrow>
             (let destination_path = destination_folder @ [name item]
              in case shutil_move f1 item destination_path of
                   Inl e \<Rightarrow>
                     (False, history_list,
                      logger ERROR (ErrorMoving (name item) e) (w\<lparr>files := f1\<rparr>))
                 | Inr f2 \<Rightarrow>
                     (True, history_list @ [(item, destination_path)],
                      logger INFO (Moved item destination_path) (w\<lparr>files := f2\<rparr>)))))"

section \<open>The rule engine\<close>

subsection \<open>Keyword rules\<close>

text \<open>
  The rule table is a Python \<^verbatim>\<open>dict\<close>, which iterates in insertion order and keeps the
  place of a key that is assigned again: an association list under \<^const>\<open>AList.update\<close>.
\<close>

type_synonym keyword_map = "(string \<times> string) list"

text \<open>The inner loop of \<^verbatim>\<open>_build_keyword_map\<close>, over the keys of one group.\<close>

fun add_keys :: "string \<Rightarrow> string list \<Rightarrow> keyword_map \<times> world \<Rightarrow> keyword_map \<times> world" where
  "add_keys folder [] mw = mw"
| "add_keys folder (key # keys) mw =
     (case mw of (keyword_map, w) \<Rightarrow>
        add_keys folder keys
          (AList.update key folder keyword_map,
           if key \<in> fst ` set keyword_map then logger WARNING (KeywordRedefined key folder) w
           else w))"

text \<open>The keys of one group: \<^verbatim>\<open>[k.strip().lower() for k in group.split(',') if k.strip()]\<close>.\<close>

definition group_keys :: "string \<Rightarrow> string list" where
  "group_keys grp =
     map (\<lambda>k. lower (strip k)) (filter (\<lambda>k. strip k \<noteq> []) (split CHR '','' grp))"

text \<open>The outer loop, over the groups paired with their folders.\<close>

fun add_groups :: "(string \<times> string) list \<Rightarrow> keyword_map \<times> world \<Rightarrow> keyword_map \<times> world" where
  "add_groups [] mw = mw"
| "add_groups ((grp, folder) # rest) mw =
     add_groups rest (add_keys folder (group_keys grp) mw)"

text \<open>\<^verbatim>\<open>_build_keyword_map\<close>.\<close>

definition build_keyword_map ::
  "string \<Rightarrow> string \<Rightarrow> world \<Rightarrow> (exn + keyword_map) \<times> world" where
  "build_keyword_map keyword_rules folder_rules w =
     (let keyword_groups = map strip (split CHR '';'' keyword_rules);
          folder_names = map strip (split CHR '';'' folder_rules)
      in if length keyword_groups \<noteq> length folder_names then
           (Inl (ValueError
                   (''Rule mismatch: Found '' @ str_int (int (length keyword_groups))
                    @ '' keyword groups but '' @ str_int (int (length folder_names))
                    @ '' folders. They must match.'')), w)
         else if keyword_rules = [] \<or> folder_rules = [] then
           (Inl (ValueError ''Keyword and folder rules cannot be empty.''), w)
         else (case add_groups (zip keyword_groups folder_names) ([], w) of
                 (keyword_map, w') \<Rightarrow> (Inr keyword_map, w')))"

subsection \<open>Classification by extension\<close>

text \<open>
  \<^verbatim>\<open>organize_files\<close>, mode \<^verbatim>\<open>By Extension\<close>:
  \<^verbatim>\<open>extension[1:].lower() if extension else "other"\<close>.
\<close>

definition ext_folder_name :: "string \<Rightarrow> string" where
  "ext_folder_name nm =
     (let extension = suffix_of nm
      in if extension \<noteq> [] then lower (drop 1 extension) else ''other'')"

subsection \<open>Classification by modification time\<close>

text \<open>
  The folder of a file by its modification time, the body of mode \<^verbatim>\<open>By Time\<close>. With
  \<open>create_parent_folders\<close> the result is the list \<open>parts\<close>; without it the one name
  \<open>flat_name\<close>, and nothing when that name is empty (a granularity the code does not know).
\<close>

definition time_folder_path :: "datetime \<Rightarrow> string \<Rightarrow> bool \<Rightarrow> path option" where
  "time_folder_path m_time granularity create_parent_folders =
     (if create_parent_folders then
        Some
          ((if granularity = ''Decade'' then [str_int (year m_time div 10 * 10) @ ''s'']
            else [str_int (year m_time)])
           @ (if granularity \<in> set [''Month'', ''Day'', ''Hour'', ''Minute'', ''Second'']
              then [fmt_02d (month m_time)] else [])
           @ (if granularity \<in> set [''Day'', ''Hour'', ''Minute'', ''Second'']
              then [fmt_02d (day m_time)] else [])
           @ (if granularity \<in> set [''Hour'', ''Minute'', ''Second'']
              then [fmt_02d (hour m_time) @ ''h''] else [])
           @ (if granularity \<in> set [''Minute'', ''Second'']
              then [fmt_02d (minute m_time) @ ''m''] else [])
           @ (if granularity = ''Second'' then [fmt_02d (second m_time) @ ''s''] else []))
      else
        (let base_name =
               str_int (year m_time) @ ''-'' @ fmt_02d (month m_time) @ ''-''
                 @ fmt_02d (day m_time);
             flat_name =
               (if granularity = ''Decade'' then str_int (year m_time div 10 * 10) @ ''s''
                else if granularity = ''Year'' then str_int (year m_time)
                else if granularity = ''Month''
                  then str_int (year m_time) @ ''-'' @ fmt_02d (month m_time)
                else if granularity = ''Day'' then base_name
                else if granularity = ''Hour''
                  then base_name @ ''_'' @ fmt_02d (hour m_time) @ ''h''
                else if granularity = ''Minute''
                  then base_name @ ''_'' @ fmt_02d (hour m_time) @ ''h''
                         @ fmt_02d (minute m_time) @ ''m''
                else if granularity = ''Second''
                  then base_name @ ''_'' @ fmt_02d (hour m_time) @ ''h''
                         @ fmt_02d (minute m_time) @ ''m'' @ fmt_02d (second m_time) @ ''s''
                else [])
         in if flat_name \<noteq> [] then Some [flat_name] else None))"

section \<open>Organizing\<close>

text \<open>The files the organizer keeps for itself and never moves.\<close>

definition own_files :: "string list" where
  "own_files = [''.organizer_history.json'', ''.organizer_config.json'']"

text \<open>
  Step 1 of \<^verbatim>\<open>organize_files\<close>: in mode \<^verbatim>\<open>By Keyword\<close> the rule table is built, and
  an empty table is an error.
\<close>

definition prepare_rules ::
  "string \<Rightarrow> string \<Rightarrow> string \<Rightarrow> world \<Rightarrow> (exn + keyword_map) \<times> world" where
  "prepare_rules sort_mode keyword_rules folder_rules w =
     (if sort_mode = ''By Keyword'' then
        (case build_keyword_map keyword_rules folder_rules w of
           (Inl e, w') \<Rightarrow> (Inl e, w')
         | (Inr keyword_map, w') \<Rightarrow>
             (if keyword_map = [] then
                (Inl (ValueError ''No valid keyword rules were provided.''), w')
              else (Inr keyword_map, w')))
      else (Inr [], w))"

text \<open>Step 2: the regular files directly in the directory, without the organizer's own.\<close>

definition collect_files :: "organizer \<Rightarrow> fs \<Rightarrow> exn + path list" where
  "collect_files self f =
     (case iterdir f (source_directory self) of
        Inl e \<Rightarrow> Inl e
      | Inr entries \<Rightarrow>
          Inr (filter (\<lambda>item. is_file f item \<and> name item \<notin> set own_files) entries))"

text \<open>
  Mode \<^verbatim>\<open>By Keyword\<close> for one file: the first key of the table that occurs in the
  lower-case file name decides the folder, and the loop ends there whether or not the move
  succeeds.
\<close>

fun keyword_loop :: "organizer \<Rightarrow> path \<Rightarrow> keyword_map \<Rightarrow> batch \<times> world \<Rightarrow> batch \<times> world" where
  "keyword_loop self item [] hw = hw"
| "keyword_loop self item ((key, folder_name) # rest) hw =
     (if contains key (lower (name item)) then
        snd (move_file item (path_join (source_directory self) folder_name) hw)
      else keyword_loop self item rest hw)"

text \<open>
  \<^verbatim>\<open>datetime.fromtimestamp(item.stat().st_mtime)\<close>. Directories carry no time in this
  model; the code asks only for entries it has found to be regular files.
\<close>

definition stat_mtime :: "fs \<Rightarrow> path \<Rightarrow> exn + datetime" where
  "stat_mtime f p =
     (case lookup f p of
        None \<Rightarrow> Inl (missing_error f p)
      | Some Dir \<Rightarrow> Inl OSError
      | Some (File None c) \<Rightarrow> Inl OSError
      | Some (File (Some t) c) \<Rightarrow> Inr t)"

text \<open>The body of the loop of step 3, without the progress report.\<close>

definition process_item ::
  "organizer \<Rightarrow> string \<Rightarrow> string \<Rightarrow> keyword_map \<Rightarrow> bool \<Rightarrow> path
     \<Rightarrow> batch \<times> world \<Rightarrow> batch \<times> world" where
  "process_item self sort_mode granularity keyword_map create_parent_folders item hw =
     (if sort_mode = ''By Keyword'' then keyword_loop self item keyword_map hw
      else if sort_mode = ''By Time'' then
        (case stat_mtime (files (snd hw)) item of
           Inl e \<Rightarrow> (fst hw, logger ERROR (ErrorProcessingTime (name item) e) (snd hw))
         | Inr m_time \<Rightarrow>
             (case time_folder_path m_time granularity create_parent_folders of
                None \<Rightarrow> hw
              | Some folder \<Rightarrow> snd (move_file item (source_directory self @ folder) hw)))
      else if sort_mode = ''By Extension'' then
        snd (move_file item
               (path_join (source_directory self) (ext_folder_name (name item))) hw)
      else hw)"

text \<open>Step 3: every file in turn, each followed by a progress report.\<close>

fun organize_loop ::
  "organizer \<Rightarrow> string \<Rightarrow> string \<Rightarrow> keyword_map \<Rightarrow> bool \<Rightarrow> nat \<Rightarrow> nat \<Rightarrow> path list
     \<Rightarrow> batch \<times> world \<Rightarrow> batch \<times> world" where
  "organize_loop self sort_mode granularity keyword_map create_parent_folders total_files
     index [] hw = hw"
| "organize_loop self sort_mode granularity keyword_map create_parent_folders total_files
     index (item # rest) hw =
     (let hw' = process_item self sort_mode granularity keyword_map create_parent_folders
                  item hw
      in organize_loop self sort_mode granularity keyword_map create_parent_folders
           total_files (index + 1) rest
           (fst hw', report_progress self (index + 1) total_files (snd hw')))"

text \<open>
  Step 4: a batch that is not empty is appended to the stack read from the history file,
  and the stack is written back. A failure is logged. \<^verbatim>\<open>_set_file_hidden\<close> does
  nothing outside Windows and is left out.
\<close>

definition save_history :: "organizer \<Rightarrow> batch \<Rightarrow> world \<Rightarrow> world" where
  "save_history self current_batch_history w =
     (if current_batch_history \<noteq> [] then
        (case load_history_stack self w of
           (Inl e, w') \<Rightarrow> logger ERROR (ErrorSavingHistory e) w'
         | (Inr history_stack, w') \<Rightarrow>
             (case write_json (files w') (history_file self) (clock self)
                     (history_stack @ [current_batch_history]) of
                Inl e \<Rightarrow> logger ERROR (ErrorSavingHistory e) w'
              | Inr f \<Rightarrow> logger INFO SavedHistory (w'\<lparr>files := f\<rparr>)))
      else w)"

text \<open>
  \<^verbatim>\<open>organize_files\<close>. The result is the exception raised to the caller or the number
  returned, together with the world the call leaves behind.
\<close>

definition organize_files ::
  "organizer \<Rightarrow> string \<Rightarrow> string \<Rightarrow> string \<Rightarrow> string \<Rightarrow> bool \<Rightarrow> world
     \<Rightarrow> (exn + nat) \<times> world" where
  "organize_files self sort_mode granularity keyword_rules folder_rules
     create_parent_folders w =
     (case prepare_rules sort_mode keyword_rules folder_rules
             (logger INFO (Starting sort_mode) w) of
        (Inl e, w1) \<Rightarrow> (Inl e, w1)
      | (Inr keyword_map, w1) \<Rightarrow>
          (case collect_files self (files w1) of
             Inl e \<Rightarrow> (Inl e, w1)
           | Inr files_to_process \<Rightarrow>
               (let total_files = length files_to_process
                in if total_files = 0 then (Inr 0, logger INFO NoFiles w1)
                   else
                     (let hw = organize_loop self sort_mode granularity keyword_map
                                 create_parent_folders total_files 0 files_to_process
                                 ([], logger INFO (Found total_files) w1);
                          current_batch_history = fst hw;
                          w2 = save_history self current_batch_history (snd hw)
                      in (Inr (length current_batch_history),
                          logger INFO (Complete (length current_batch_history)) w2)))))"

section \<open>Undoing\<close>

text \<open>
  \<open>folders_to_check\<close> is a Python set. It is kept here as a list without duplicates in
  the order of first insertion.
\<close>

definition set_add :: "'a \<Rightarrow> 'a list \<Rightarrow> 'a list" where
  "set_add x xs = (if x \<in> set xs then xs else xs @ [x])"

text \<open>
  The body of the loop of step 1 of \<^verbatim>\<open>undo_organization\<close>, without the progress
  report: the \<^verbatim>\<open>try\<close> statement that moves one destination back to its source. The
  state of the loop is the count \<open>files_undone\<close>, the folders to check, and the world.
\<close>

definition restore_record ::
  "path \<Rightarrow> path \<Rightarrow> nat \<times> path list \<times> world \<Rightarrow> nat \<times> path list \<times> world" where
  "restore_record source_str dest_str st =
     (case st of (files_undone, folders_to_check, w) \<Rightarrow>
        (case shutil_move (files w) dest_str source_str of
           Inr f \<Rightarrow>
             (files_undone + 1, set_add (parent dest_str) folders_to_check,
              logger INFO (UndoMoved dest_str source_str) (w\<lparr>files := f\<rparr>))
         | Inl FileNotFoundError \<Rightarrow>
             (files_undone, folders_to_check, logger WARNING (UndoNotFound dest_str) w)
         | Inl e \<Rightarrow>
             (files_undone, folders_to_check, logger ERROR (UndoError dest_str e) w)))"

text \<open>Step 1: each record of the list in turn, each followed by a progress report.\<close>

fun restore_loop ::
  "organizer \<Rightarrow> nat \<Rightarrow> nat \<Rightarrow> batch \<Rightarrow> nat \<times> path list \<times> world
     \<Rightarrow> nat \<times> path list \<times> world" where
  "restore_loop self total_files index [] st = st"
| "restore_loop self total_files index ((source_str, dest_str) # rest) st =
     (case restore_record source_str dest_str st of
        (files_undone, folders_to_check, w) \<Rightarrow>
          restore_loop self total_files (index + 1) rest
            (files_undone, folders_to_check,
             report_progress self (index + 1) total_files w))"

text \<open>
  The inner loop of step 2: from \<open>current_folder\<close> upwards, empty folders are removed
  until the source directory, a folder that is not empty, or a failure is met.
\<close>

function cleanup_walk :: "organizer \<Rightarrow> path \<Rightarrow> world \<Rightarrow> world" where
  "cleanup_walk self current_folder w =
     (if current_folder \<noteq> source_directory self \<and> exists (files w) current_folder then
        (case iterdir (files w) current_folder of
           Inl e \<Rightarrow> logger WARNING (CouldNotRemove current_folder e) w
         | Inr entries \<Rightarrow>
             (if entries = [] then
                (case rmdir (files w) current_folder of
                   Inl e \<Rightarrow> logger WARNING (CouldNotRemove current_folder e) w
                 | Inr f \<Rightarrow>
                     cleanup_walk self (parent current_folder)
                       (logger INFO (RemovedFolder current_folder) (w\<lparr>files := f\<rparr>)))
              else w))
      else w)"
  by pat_completeness auto
termination
  by (relation "measure (\<lambda>(self, p, w). length p)")
     (auto simp: rmdir_def parent_def split: option.splits node.splits if_splits)

declare cleanup_walk.simps [simp del]

text \<open>
  Step 2: the folders, deepest first. \<^verbatim>\<open>sorted\<close> is stable, also with
  \<^verbatim>\<open>reverse=True\<close>.
\<close>

definition sorted_folders :: "path list \<Rightarrow> path list" where
  "sorted_folders folders_to_check = sort_key (\<lambda>p. - int (length p)) folders_to_check"

fun cleanup_loop :: "organizer \<Rightarrow> path list \<Rightarrow> world \<Rightarrow> world" where
  "cleanup_loop self [] w = w"
| "cleanup_loop self (folder # rest) w = cleanup_loop self rest (cleanup_walk self folder w)"

text \<open>
  Step 3: the history file is removed when the stack has become empty and rewritten
  otherwise. A failure is logged.
\<close>

definition update_history :: "organizer \<Rightarrow> batch list \<Rightarrow> world \<Rightarrow> world" where
  "update_history self history_stack w =
     (if history_stack = [] then
        (case remove (files w) (history_file self) of
           Inl e \<Rightarrow> logger ERROR (ErrorUpdatingHistory e) w
         | Inr f \<Rightarrow> logger INFO RemovedHistoryFile (w\<lparr>files := f\<rparr>))
      else
        (case write_json (files w) (history_file self) (clock self) history_stack of
           Inl e \<Rightarrow> logger ERROR (ErrorUpdatingHistory e) w
         | Inr f \<Rightarrow> logger INFO UpdatedHistory (w\<lparr>files := f\<rparr>)))"

text \<open>
  \<^verbatim>\<open>undo_organization\<close>: the number returned and the world the call leaves behind. No
  exception reaches the caller. What the function prints to the terminal is left out.
\<close>

definition undo_organization :: "organizer \<Rightarrow> world \<Rightarrow> nat \<times> world" where
  "undo_organization self w =
     (case load_history_stack self (logger INFO Attempting w) of
        (Inl e, w1) \<Rightarrow> (0, w1)
      | (Inr history_stack, w1) \<Rightarrow>
          (if history_stack = [] then (0, logger WARNING HistoryEmpty w1)
           else
             (let last_batch = last history_stack;
                  total_files = length last_batch
              in if total_files = 0 then (0, w1)
                 else
                   (case restore_loop self total_files 0 (rev last_batch) (0, [], w1) of
                      (files_undone, folders_to_check, w2) \<Rightarrow>
                        (files_undone,
                         update_history self (butlast history_stack)
                           (cleanup_loop self (sorted_folders folders_to_check) w2))))))"

section \<open>Notions of the specification\<close>

text \<open>
  The specification writes a time as \<open>YYYY\<close>, \<open>MM\<close>, \<open>DD\<close>, \<open>HH\<close>, \<open>SS\<close>: a year of
  four digits and the other fields padded to two digits. These follow its words.
\<close>

definition digit :: "nat \<Rightarrow> char" where
  "digit d = char_of (48 + d)"

definition YYYY :: "int \<Rightarrow> string" where
  "YYYY y =
     [digit (nat y div 1000), digit (nat y div 100 mod 10), digit (nat y div 10 mod 10),
      digit (nat y mod 10)]"

definition two_digits :: "int \<Rightarrow> string" where
  "two_digits x = [digit (nat x div 10), digit (nat x mod 10)]"

text \<open>The fields of a \<^verbatim>\<open>datetime\<close> whose year has four digits.\<close>

definition four_digit_year :: "datetime \<Rightarrow> bool" where
  "four_digit_year t =
     (1000 \<le> year t \<and> year t \<le> 9999 \<and> 1 \<le> month t \<and> month t \<le> 12
      \<and> 1 \<le> day t \<and> day t \<le> 31 \<and> 0 \<le> hour t \<and> hour t \<le> 23
      \<and> 0 \<le> minute t \<and> minute t \<le> 59 \<and> 0 \<le> second t \<and> second t \<le> 59)"

text \<open>
  The progress reports of a run over \<open>n\<close> files or records: after the \<open>i\<close>-th the
  percentage is \<open>i / n * 100\<close>.
\<close>

definition percentages :: "nat \<Rightarrow> rat list" where
  "percentages n = map (\<lambda>i. of_nat i / of_nat n * 100) [1..<Suc n]"

text \<open>
  Replaying move records, in the words of the specification: a record is moved back when
  the move of its destination to its source succeeds, and is skipped otherwise, leaving the
  filesystem as it was. \<open>restored\<close> counts the records moved back, and \<open>replay_log\<close>
  lists what is logged: a warning when the destination is not found, an error for any other
  failure.
\<close>

definition moved_back :: "fs \<Rightarrow> move_record \<Rightarrow> bool" where
  "moved_back f r = (case shutil_move f (snd r) (fst r) of Inr f' \<Rightarrow> True | Inl e \<Rightarrow> False)"

definition replay_one :: "fs \<Rightarrow> move_record \<Rightarrow> fs" where
  "replay_one f r = (case shutil_move f (snd r) (fst r) of Inr f' \<Rightarrow> f' | Inl e \<Rightarrow> f)"

definition replay :: "fs \<Rightarrow> batch \<Rightarrow> fs" where
  "replay f rs = foldl replay_one f rs"

fun restored :: "fs \<Rightarrow> batch \<Rightarrow> nat" where
  "restored f [] = 0"
| "restored f (r # rs) = (if moved_back f r then 1 else 0) + restored (replay_one f r) rs"

definition replay_entry :: "fs \<Rightarrow> move_record \<Rightarrow> level \<times> message" where
  "replay_entry f r =
     (case shutil_move f (snd r) (fst r) of
        Inr f' \<Rightarrow> (INFO, UndoMoved (snd r) (fst r))
      | Inl FileNotFoundError \<Rightarrow> (WARNING, UndoNotFound (snd r))
      | Inl e \<Rightarrow> (ERROR, UndoError (snd r) e))"

fun replay_log :: "fs \<Rightarrow> batch \<Rightarrow> (level \<times> message) list" where
  "replay_log f [] = []"
| "replay_log f (r # rs) = replay_entry f r # replay_log (replay_one f r) rs"

section \<open>Invariants of the filesystem\<close>

text \<open>A filesystem is closed when every entry lies in a directory that exists.\<close>

definition closed :: "fs \<Rightarrow> bool" where
  "closed f = list_all (\<lambda>p. lookup f (parent p) = Some Dir) (map fst f)"

text \<open>
  A step from \<open>g\<close> to \<open>g'\<close> keeps everything but the entries named \<open>n\<close> when
  directories stay, and an entry of another name stays as it is or, if it was free, becomes
  a directory.
\<close>

definition stays :: "node option \<Rightarrow> node option \<Rightarrow> bool" where
  "stays a b = (b = a \<or> (a = None \<and> b = Some Dir))"

definition keeps :: "string \<Rightarrow> fs \<Rightarrow> fs \<Rightarrow> bool" where
  "keeps n g g' =
     (\<forall>q. (lookup g q = Some Dir \<longrightarrow> lookup g' q = Some Dir)
          \<and> (name q \<noteq> n \<longrightarrow> stays (lookup g q) (lookup g' q)))"

section \<open>A directory to try things on\<close>

text \<open>
  The scenario of the specification: a directory with \<open>a.jpg\<close>, \<open>b.jpg\<close> and
  \<open>notes.txt\<close>, and an organizer for it that has a progress callback. \<open>stale\<close> is
  the same directory without the three files, where the history file holds one batch, which is empty.
\<close>

definition home :: path where
  "home = [''home'', ''u'']"

definition me :: organizer where
  "me = \<lparr>source_directory = home, progress_callback = True, clock = None\<rparr>"

definition photos :: fs where
  "photos =
     [([''home''], Dir), (home, Dir),
      (home @ [''a.jpg''], File None (Bytes 1)),
      (home @ [''b.jpg''], File None (Bytes 2)),
      (home @ [''notes.txt''], File None (Bytes 3))]"

definition start :: world where
  "start = \<lparr>files = photos, logs = [], progress = []\<rparr>"

definition stale :: world where
  "stale =
     \<lparr>files = [([''home''], Dir), (home, Dir),
               (home @ [''.organizer_history.json''], File None (JsonArray [[]]))],
      logs = [], progress = []\<rparr>"

section \<open>Classification by extension\<close>

lemma rfind_dot_none: "CHR ''.'' \<notin> set s \<Longrightarrow> rfind_dot s = - 1"
  by (induction s) auto

lemma rfind_dot_last:
  "CHR ''.'' \<notin> set ext \<Longrightarrow> rfind_dot (stem @ CHR ''.'' # ext) = int (length stem)"
  by (induction stem) (auto simp: rfind_dot_none)

lemma suffix_of_ext:
  assumes "stem \<noteq> []" "ext \<noteq> []" "CHR ''.'' \<notin> set ext"
  shows "suffix_of (stem @ CHR ''.'' # ext) = CHR ''.'' # ext"
  using assms by (cases ext) (auto simp: suffix_of_def rfind_dot_last Let_def)

lemma suffix_of_no_inner_dot:
  assumes "CHR ''.'' \<notin> set (tl nm)"
  shows "suffix_of nm = []"
proof (cases nm)
  case Nil
  then show ?thesis by (simp add: suffix_of_def)
next
  case (Cons c cs)
  with assms have "rfind_dot cs = - 1" by (simp add: rfind_dot_none)
  with Cons show ?thesis by (simp add: suffix_of_def)
qed

lemma suffix_of_trailing_dot:
  assumes "nm \<noteq> []" "last nm = CHR ''.''"
  shows "suffix_of nm = []"
proof -
  from assms have "nm = butlast nm @ CHR ''.'' # []"
    by (metis append_butlast_last_id)
  then have "rfind_dot nm = int (length (butlast nm))"
    using rfind_dot_last [of "[]" "butlast nm"] by simp
  moreover have "int (length (butlast nm)) = int (length nm) - 1"
    using assms by (cases nm) auto
  ultimately show ?thesis by (simp add: suffix_of_def Let_def)
qed

lemma ext_folder_name_report: "ext_folder_name ''report.TXT'' = ''txt''"
  by code_simp

lemma ext_folder_name_readme: "ext_folder_name ''README'' = ''other''"
  by code_simp

text \<open>
  Claim C5. A name \<open>stem.ext\<close>, with a stem that is not empty and an \<open>ext\<close> that is not
  empty and has no dot, goes to the folder \<open>ext\<close> in lower case. A name with no dot after
  its first character, or with a dot at its end, has no extension and goes to
  \<open>other\<close>. These three cases cover every name. So \<open>report.TXT\<close> goes to \<open>txt\<close> and
  \<open>README\<close> to \<open>other\<close>.
\<close>

theorem ext_folder_name_classifies:
  "(stem \<noteq> [] \<and> ext \<noteq> [] \<and> CHR ''.'' \<notin> set ext
      \<longrightarrow> ext_folder_name (stem @ CHR ''.'' # ext) = lower ext)
   \<and> (CHR ''.'' \<notin> set (tl nm) \<or> (nm \<noteq> [] \<and> last nm = CHR ''.'')
      \<longrightarrow> ext_folder_name nm = ''other'')
   \<and> ext_folder_name ''report.TXT'' = ''txt''
   \<and> ext_folder_name ''README'' = ''other''"
  using ext_folder_name_report ext_folder_name_readme
  by (auto simp: ext_folder_name_def suffix_of_ext suffix_of_no_inner_dot
        suffix_of_trailing_dot)

theorem ext_folder_name_classifies_witness:
  "ext_folder_name (''archive.tar'' @ CHR ''.'' # ''GZ'') = lower ''GZ''
   \<and> ext_folder_name ''.bashrc'' = ''other''"
  using ext_folder_name_classifies [of "''archive.tar''" "''GZ''" "''.bashrc''"]
  by simp

section \<open>Classification by time\<close>

lemma digits_small: "n < 10 \<Longrightarrow> digits n = [digit n]"
  by (simp add: digits.simps digit_def)

lemma digits_large: "10 \<le> n \<Longrightarrow> digits n = digits (n div 10) @ [digit (n mod 10)]"
  by (subst digits.simps) (simp add: digit_def)

lemma digit_0: "digit 0 = CHR ''0''"
  by code_simp

lemma str_int_YYYY:
  assumes "1000 \<le> y" "y \<le> 9999"
  shows "str_int y = YYYY y"
proof -
  define n where "n = nat y"
  have n: "1000 \<le> n" "n < 10000" using assms by (auto simp: n_def)
  have "digits n = digits (n div 10) @ [digit (n mod 10)]"
    using n by (simp add: digits_large)
  also have "digits (n div 10) = digits (n div 100) @ [digit (n div 10 mod 10)]"
    using n by (simp add: digits_large div_mult2_eq [symmetric])
  also have "digits (n div 100) = digits (n div 1000) @ [digit (n div 100 mod 10)]"
    using n by (simp add: digits_large div_mult2_eq [symmetric])
  also have "digits (n div 1000) = [digit (n div 1000)]"
    using n by (simp add: digits_small)
  finally show ?thesis using assms by (simp add: str_int_def YYYY_def n_def)
qed

lemma fmt_02d_two_digits:
  assumes "0 \<le> x" "x \<le> 99"
  shows "fmt_02d x = two_digits x"
proof (cases "x < 10")
  case True
  then show ?thesis using assms
    by (simp add: fmt_02d_def str_int_def digits_small two_digits_def digit_0)
next
  case False
  then have "10 \<le> nat x" "nat x div 10 < 10" using assms by auto
  then show ?thesis using assms False
    by (simp add: fmt_02d_def str_int_def digits_large digits_small two_digits_def)
qed

lemma decade_eq: "(y::int) div 10 * 10 = y - y mod 10"
  by (simp add: minus_mod_eq_div_mult)

lemma decade_range:
  assumes "four_digit_year t"
  shows "1000 \<le> year t - year t mod 10" and "year t - year t mod 10 \<le> 9999"
  using assms unfolding four_digit_year_def by presburger+

lemma flat_formats:
  assumes "four_digit_year t"
  shows "time_folder_path t ''Decade'' False = Some [YYYY (year t - year t mod 10) @ ''s'']"
    and "time_folder_path t ''Year'' False = Some [YYYY (year t)]"
    and "time_folder_path t ''Month'' False
           = Some [YYYY (year t) @ ''-'' @ two_digits (month t)]"
    and "time_folder_path t ''Day'' False
           = Some [YYYY (year t) @ ''-'' @ two_digits (month t) @ ''-'' @ two_digits (day t)]"
    and "time_folder_path t ''Hour'' False
           = Some [YYYY (year t) @ ''-'' @ two_digits (month t) @ ''-'' @ two_digits (day t)
                   @ ''_'' @ two_digits (hour t) @ ''h'']"
    and "time_folder_path t ''Minute'' False
           = Some [YYYY (year t) @ ''-'' @ two_digits (month t) @ ''-'' @ two_digits (day t)
                   @ ''_'' @ two_digits (hour t) @ ''h'' @ two_digits (minute t) @ ''m'']"
    and "time_folder_path t ''Second'' False
           = Some [YYYY (year t) @ ''-'' @ two_digits (month t) @ ''-'' @ two_digits (day t)
                   @ ''_'' @ two_digits (hour t) @ ''h'' @ two_digits (minute t) @ ''m''
                   @ two_digits (second t) @ ''s'']"
  using assms decade_range [OF assms]
  by (simp_all add: time_folder_path_def four_digit_year_def decade_eq str_int_YYYY
        fmt_02d_two_digits YYYY_def)

lemma nested_formats:
  assumes "four_digit_year t"
  shows "time_folder_path t ''Decade'' True = Some [YYYY (year t - year t mod 10) @ ''s'']"
    and "time_folder_path t ''Year'' True = Some [YYYY (year t)]"
    and "time_folder_path t ''Month'' True = Some [YYYY (year t), two_digits (month t)]"
    and "time_folder_path t ''Day'' True
           = Some [YYYY (year t), two_digits (month t), two_digits (day t)]"
    and "time_folder_path t ''Hour'' True
           = Some [YYYY (year t), two_digits (month t), two_digits (day t),
                   two_digits (hour t) @ ''h'']"
    and "time_folder_path t ''Minute'' True
           = Some [YYYY (year t), two_digits (month t), two_digits (day t),
                   two_digits (hour t) @ ''h'', two_digits (minute t) @ ''m'']"
    and "time_folder_path t ''Second'' True
           = Some [YYYY (year t), two_digits (month t), two_digits (day t),
                   two_digits (hour t) @ ''h'', two_digits (minute t) @ ''m'',
                   two_digits (second t) @ ''s'']"
  using assms decade_range [OF assms]
  by (simp_all add: time_folder_path_def four_digit_year_def decade_eq str_int_YYYY
        fmt_02d_two_digits)

lemma decade_2025:
  "time_folder_path \<lparr>year = 2025, month = 11, day = 10, hour = 16, minute = 30, second = 0\<rparr>
     ''Decade'' False = Some [''2020s'']"
  by code_simp

lemma march_2024:
  "time_folder_path \<lparr>year = 2024, month = 3, day = 7, hour = 5, minute = 9, second = 0\<rparr>
     ''Month'' False = Some [''2024-03'']"
  by code_simp

text \<open>
  Claim C4, as stated, fails for a year below 1000: the code prints the year without
  padding, so the year 999 gives the folder \<open>999\<close> and not the four digits \<open>0999\<close>.
\<close>

theorem time_folder_year_999:
  "time_folder_path \<lparr>year = 999, month = 3, day = 7, hour = 5, minute = 9, second = 0\<rparr>
     ''Year'' True = Some [''999'']
   \<and> YYYY 999 = ''0999''"
  by code_simp

text \<open>
  Claim C4, amended: for a time whose year has four digits (1000 to 9999) the flat layout
  gives one folder name and the nested layout a path of finer and finer segments, in the
  formats the specification lists, with the decade \<open>year - year mod 10\<close>. So 2025 is in
  \<open>2020s\<close>, and a time in March 2024 is in \<open>2024-03\<close> by month in the flat layout.
\<close>

theorem time_folder_path_formats:
  assumes "four_digit_year t"
  shows
    "time_folder_path t ''Decade'' False = Some [YYYY (year t - year t mod 10) @ ''s'']
     \<and> time_folder_path t ''Year'' False = Some [YYYY (year t)]
     \<and> time_folder_path t ''Month'' False
           = Some [YYYY (year t) @ ''-'' @ two_digits (month t)]
     \<and> time_folder_path t ''Day'' False
           = Some [YYYY (year t) @ ''-'' @ two_digits (month t) @ ''-'' @ two_digits (day t)]
     \<and> time_folder_path t ''Hour'' False
           = Some [YYYY (year t) @ ''-'' @ two_digits (month t) @ ''-'' @ two_digits (day t)
                   @ ''_'' @ two_digits (hour t) @ ''h'']
     \<and> time_folder_path t ''Minute'' False
           = Some [YYYY (year t) @ ''-'' @ two_digits (month t) @ ''-'' @ two_digits (day t)
                   @ ''_'' @ two_digits (hour t) @ ''h'' @ two_digits (minute t) @ ''m'']
     \<and> time_folder_path t ''Second'' False
           = Some [YYYY (year t) @ ''-'' @ two_digits (month t) @ ''-'' @ two_digits (day t)
                   @ ''_'' @ two_digits (hour t) @ ''h'' @ two_digits (minute t) @ ''m''
                   @ two_digits (second t) @ ''s'']
     \<and> time_folder_path t ''Decade'' True = Some [YYYY (year t - year t mod 10) @ ''s'']
     \<and> time_folder_path t ''Year'' True = Some [YYYY (year t)]
     \<and> time_folder_path t ''Month'' True = Some [YYYY (year t), two_digits (month t)]
     \<and> time_folder_path t ''Day'' True
           = Some [YYYY (year t), two_digits (month t), two_digits (day t)]
     \<and> time_folder_path t ''Hour'' True
           = Some [YYYY (year t), two_digits (month t), two_digits (day t),
                   two_digits (hour t) @ ''h'']
     \<and> time_folder_path t ''Minute'' True
           = Some [YYYY (year t), two_digits (month t), two_digits (day t),
                   two_digits (hour t) @ ''h'', two_digits (minute t) @ ''m'']
     \<and> time_folder_path t ''Second'' True
           = Some [YYYY (year t), two_digits (month t), two_digits (day t),
                   two_digits (hour t) @ ''h'', two_digits (minute t) @ ''m'',
                   two_digits (second t) @ ''s'']
     \<and> time_folder_path
           \<lparr>year = 2025, month = 11, day = 10, hour = 16, minute = 30, second = 0\<rparr>
           ''Decade'' False = Some [''2020s'']
     \<and> time_folder_path
           \<lparr>year = 2024, month = 3, day = 7, hour = 5, minute = 9, second = 0\<rparr>
           ''Month'' False = Some [''2024-03'']"
  using flat_formats [OF assms] nested_formats [OF assms] decade_2025 march_2024
  by simp

theorem time_folder_path_formats_witness:
  "four_digit_year \<lparr>year = 2024, month = 3, day = 7, hour = 5, minute = 9, second = 0\<rparr>
   \<and> time_folder_path
         \<lparr>year = 2024, month = 3, day = 7, hour = 5, minute = 9, second = 0\<rparr>
         ''Day'' True = Some [YYYY 2024, two_digits 3, two_digits 7]"
  using time_folder_path_formats
          [of "\<lparr>year = 2024, month = 3, day = 7, hour = 5, minute = 9, second = 0\<rparr>"]
  by (simp add: four_digit_year_def)

section \<open>Keyword rules\<close>

lemma group_keys_nonempty: "[] \<notin> set (group_keys g)"
  by (auto simp: group_keys_def lower_def)

lemma add_keys_keys:
  "fst ` set (fst (add_keys folder ks (m, w))) = set ks \<union> fst ` set m"
  by (induction ks arbitrary: m w) (auto simp: dom_update)

lemma add_groups_keys:
  "fst ` set (fst (add_groups gs mw))
     = (\<Union>g \<in> fst ` set gs. set (group_keys g)) \<union> fst ` set (fst mw)"
proof (induction gs arbitrary: mw)
  case Nil
  then show ?case by simp
next
  case (Cons a gs)
  obtain g f where a: "a = (g, f)" by (cases a)
  obtain m w where mw: "mw = (m, w)" by (cases mw)
  show ?case
    using Cons [of "add_keys f (group_keys g) (m, w)"]
      add_keys_keys [of f "group_keys g" m w]
    by (auto simp: a mw)
qed

lemma build_keyword_map_keys:
  assumes "fst (build_keyword_map keyword_rules folder_rules w) = Inr m"
  shows "[] \<notin> fst ` set m"
proof -
  define gs where
    "gs = zip (map strip (split CHR '';'' keyword_rules))
              (map strip (split CHR '';'' folder_rules))"
  from assms have "m = fst (add_groups gs ([], w))"
    by (auto simp: build_keyword_map_def Let_def gs_def split: if_splits prod.splits)
  then have "fst ` set m = (\<Union>g \<in> fst ` set gs. set (group_keys g))"
    by (simp add: add_groups_keys)
  then show ?thesis using group_keys_nonempty by auto
qed

lemma contains_single: "key \<noteq> [] \<Longrightarrow> contains key [c] \<longleftrightarrow> key = [c]"
  by (cases key) auto

lemma lower_a: "lower ''a'' = ''a''"
  by code_simp

lemma lower_b: "lower ''b'' = ''b''"
  by code_simp

lemma nonempty_key_misses:
  assumes "key \<noteq> []"
  shows "\<exists>nm. nm \<noteq> [] \<and> \<not> contains key (lower nm)"
proof (cases "key = ''a''")
  case True
  then have "\<not> contains key (lower ''b'')" by (simp add: lower_b)
  then show ?thesis by blast
next
  case False
  with assms have "\<not> contains key (lower ''a'')"
    by (simp add: lower_a contains_single del: contains.simps)
  then show ?thesis by blast
qed

lemma build_keyword_map_stray_comma:
  "fst (build_keyword_map ''a,,b'' ''X'' w) = Inr [(''a'', ''X''), (''b'', ''X'')]"
  by code_simp

text \<open>
  Claim C10. A rule table that \<^verbatim>\<open>_build_keyword_map\<close> returns has no empty key, so each
  of its keys fails to occur in some file name; the rules \<open>a,,b\<close> give the keys \<open>a\<close>
  and \<open>b\<close> only.
\<close>

theorem build_keyword_map_no_empty_key:
  "(fst (build_keyword_map keyword_rules folder_rules w) = Inr m
      \<longrightarrow> [] \<notin> fst ` set m
          \<and> (\<forall>key \<in> fst ` set m. \<exists>nm. nm \<noteq> [] \<and> \<not> contains key (lower nm)))
   \<and> fst (build_keyword_map ''a,,b'' ''X'' w) = Inr [(''a'', ''X''), (''b'', ''X'')]"
proof -
  have "[] \<notin> fst ` set m
          \<and> (\<forall>key \<in> fst ` set m. \<exists>nm. nm \<noteq> [] \<and> \<not> contains key (lower nm))"
    if "fst (build_keyword_map keyword_rules folder_rules w) = Inr m"
  proof -
    have nil: "[] \<notin> fst ` set m" using that by (rule build_keyword_map_keys)
    then have "\<forall>key \<in> fst ` set m. key \<noteq> []" by metis
    then show ?thesis using nil nonempty_key_misses by blast
  qed
  then show ?thesis using build_keyword_map_stray_comma by blast
qed

theorem build_keyword_map_no_empty_key_witness:
  "fst (build_keyword_map ''a,,b'' ''X'' \<lparr>files = [], logs = [], progress = []\<rparr>)
     = Inr [(''a'', ''X''), (''b'', ''X'')]
   \<and> [] \<notin> fst ` set [(''a'', ''X''), (''b'', ''X'')]
   \<and> (\<exists>nm. nm \<noteq> [] \<and> \<not> contains ''a'' (lower nm))
   \<and> (\<exists>nm. nm \<noteq> [] \<and> \<not> contains ''b'' (lower nm))"
  using build_keyword_map_no_empty_key
          [of "''a,,b''" "''X''" "\<lparr>files = [], logs = [], progress = []\<rparr>"
              "[(''a'', ''X''), (''b'', ''X'')]"]
  by simp

text \<open>
  What holds of Claim C3: a different number of groups and folders is an error, and so is a
  rule string that is empty as given.
\<close>

lemma build_keyword_map_mismatch:
  assumes "length (split CHR '';'' keyword_rules) \<noteq> length (split CHR '';'' folder_rules)"
  shows "\<exists>msg. build_keyword_map keyword_rules folder_rules w = (Inl (ValueError msg), w)"
  using assms by (simp add: build_keyword_map_def Let_def)

lemma build_keyword_map_empty:
  assumes "keyword_rules = [] \<or> folder_rules = []"
  shows "\<exists>msg. build_keyword_map keyword_rules folder_rules w = (Inl (ValueError msg), w)"
  using assms by (auto simp: build_keyword_map_def Let_def)

text \<open>
  Claim C3 fails on the code where a rule string holds only whitespace: the emptiness test
  reads the string as given, not as trimmed. The folder rule of one space is empty after
  trimming, yet the table is built, and it sends the keyword \<open>a\<close> to the folder with
  the empty name.
\<close>

theorem build_keyword_map_blank_folder:
  "strip '' '' = [] \<and> build_keyword_map ''a'' '' '' w = (Inr [(''a'', [])], w)"
  by code_simp

section \<open>Loading the history\<close>

text \<open>
  Claim C7. \<^verbatim>\<open>_load_history_stack\<close> always returns a stack and leaves the filesystem
  alone. The stack is empty when the history file is missing, when it is not JSON, and when
  its top level is not an array.
\<close>

theorem load_history_stack_never_raises:
  "(\<exists>stack. fst (load_history_stack self w) = Inr stack)
   \<and> files (snd (load_history_stack self w)) = files w
   \<and> (lookup (files w) (history_file self) = None
        \<longrightarrow> load_history_stack self w = (Inr [], w))
   \<and> (lookup (files w) (history_file self) = Some (File t (Bytes n))
        \<longrightarrow> load_history_stack self w = (Inr [], w))
   \<and> (lookup (files w) (history_file self) = Some (File t JsonOther)
        \<longrightarrow> load_history_stack self w = (Inr [], w))"
  by (auto simp: load_history_stack_def open_and_load_def exists_def logger_def
        split: option.splits node.splits content.splits load_outcome.splits)

theorem load_history_stack_never_raises_witness:
  "lookup [([''d''], Dir), ([''d'', ''.organizer_history.json''], File None (Bytes 7))]
      (history_file \<lparr>source_directory = [''d''], progress_callback = True, clock = None\<rparr>)
     = Some (File None (Bytes 7))
   \<and> load_history_stack
         \<lparr>source_directory = [''d''], progress_callback = True, clock = None\<rparr>
         \<lparr>files = [([''d''], Dir), ([''d'', ''.organizer_history.json''], File None (Bytes 7))],
          logs = [], progress = []\<rparr>
       = (Inr [],
          \<lparr>files = [([''d''], Dir), ([''d'', ''.organizer_history.json''], File None (Bytes 7))],
           logs = [], progress = []\<rparr>)"
  using load_history_stack_never_raises
          [of "\<lparr>source_directory = [''d''], progress_callback = True, clock = None\<rparr>"
              "\<lparr>files = [([''d''], Dir),
                         ([''d'', ''.organizer_history.json''], File None (Bytes 7))],
                logs = [], progress = []\<rparr>"
              None 7]
  by (simp add: lookup_def history_file_def)

section \<open>The world outside the filesystem\<close>

lemma logs_logger [simp]: "logs (logger l m w) = logs w @ [(l, m)]"
  by (simp add: logger_def)

lemma files_logger [simp]: "files (logger l m w) = files w"
  by (simp add: logger_def)

lemma progress_logger [simp]: "progress (logger l m w) = progress w"
  by (simp add: logger_def)

lemma files_report_progress [simp]: "files (report_progress self i n w) = files w"
  by (simp add: report_progress_def)

lemma logs_report_progress [simp]: "logs (report_progress self i n w) = logs w"
  by (simp add: report_progress_def)

lemma progress_move_file [simp]:
  "progress (snd (snd (move_file item d (h, w)))) = progress w"
  by (simp add: move_file_def Let_def split: sum.splits)

lemma progress_keyword_loop [simp]:
  "progress (snd (keyword_loop self item m (h, w))) = progress w"
  by (induction m) auto

lemma progress_process_item [simp]:
  "progress (snd (process_item self sm g m cpf item (h, w))) = progress w"
  by (simp add: process_item_def split: sum.splits option.splits)

lemma progress_organize_loop:
  assumes "progress_callback self" "0 < n"
  shows "progress (snd (organize_loop self sm g m cpf n i items hw))
           = progress (snd hw) @ map (\<lambda>k. of_nat k / of_nat n * 100) [Suc i..<Suc i + length items]"
  using assms
proof (induction items arbitrary: i hw)
  case Nil
  then show ?case by simp
next
  case (Cons item items)
  obtain h w where hw: "hw = (h, w)" by (cases hw)
  obtain h' w' where p: "process_item self sm g m cpf item (h, w) = (h', w')"
    by (cases "process_item self sm g m cpf item (h, w)")
  have w': "progress w' = progress w"
    using progress_process_item [of self sm g m cpf item h w] p by simp
  have "[Suc i..<Suc i + length (item # items)] = Suc i # [Suc (Suc i)..<Suc (Suc i) + length items]"
    by (simp add: upt_rec)
  then show ?case
    using Cons.IH [of "Suc i" "(h', report_progress self (Suc i) n w')"] Cons.prems
    by (simp add: hw p w' report_progress_def Let_def)
qed

lemma progress_save_history [simp]: "progress (save_history self b w) = progress w"
  by (auto simp: save_history_def load_history_stack_def split: sum.splits prod.splits load_outcome.splits content.splits)

lemma add_keys_world:
  "files (snd (add_keys folder ks mw)) = files (snd mw)
   \<and> progress (snd (add_keys folder ks mw)) = progress (snd mw)"
  by (induction ks arbitrary: mw) (auto split: prod.splits)

lemma add_groups_world:
  "files (snd (add_groups gs mw)) = files (snd mw)
   \<and> progress (snd (add_groups gs mw)) = progress (snd mw)"
proof (induction gs arbitrary: mw)
  case Nil
  then show ?case by simp
next
  case (Cons a gs)
  obtain g f where a: "a = (g, f)" by (cases a)
  show ?case
    using Cons [of "add_keys f (group_keys g) mw"] add_keys_world [of f "group_keys g" mw]
    by (simp add: a)
qed

lemma build_keyword_map_world:
  "files (snd (build_keyword_map kr fr w)) = files w
   \<and> progress (snd (build_keyword_map kr fr w)) = progress w"
proof -
  let ?gs = "zip (map strip (split CHR '';'' kr)) (map strip (split CHR '';'' fr))"
  obtain m w' where a: "add_groups ?gs ([], w) = (m, w')"
    by (cases "add_groups ?gs ([], w)")
  then have "files w' = files w \<and> progress w' = progress w"
    using add_groups_world [of ?gs "([], w)"] by simp
  then show ?thesis by (simp add: build_keyword_map_def Let_def a)
qed

lemma prepare_rules_world:
  "files (snd (prepare_rules sm kr fr w)) = files w
   \<and> progress (snd (prepare_rules sm kr fr w)) = progress w"
  using build_keyword_map_world [of kr fr w]
  by (auto simp: prepare_rules_def split: prod.splits sum.splits)

lemma organize_files_progress:
  assumes "progress_callback self"
  shows "progress (snd (organize_files self sm g kr fr cpf w))
           = progress w @
             (case fst (organize_files self sm g kr fr cpf w) of
                Inl e \<Rightarrow> []
              | Inr k \<Rightarrow> (case collect_files self (files w) of
                           Inl e \<Rightarrow> [] | Inr items \<Rightarrow> percentages (length items)))"
proof -
  obtain r w1 where pr: "prepare_rules sm kr fr (logger INFO (Starting sm) w) = (r, w1)"
    by (cases "prepare_rules sm kr fr (logger INFO (Starting sm) w)")
  have w1: "files w1 = files w" "progress w1 = progress w"
    using prepare_rules_world [of sm kr fr "logger INFO (Starting sm) w"] pr by simp_all
  show ?thesis
  proof (cases r)
    case (Inl e)
    then show ?thesis by (simp add: organize_files_def pr w1)
  next
    case (Inr m)
    show ?thesis
    proof (cases "collect_files self (files w)")
      case (Inl e)
      then show ?thesis by (simp add: organize_files_def pr Inr w1)
    next
      case items: (Inr items)
      show ?thesis
      proof (cases "items = []")
        case True
        then show ?thesis
          by (simp add: organize_files_def pr Inr w1 items percentages_def)
      next
        case False
        then have "0 < length items" by simp
        from progress_organize_loop [OF assms this, of sm g m cpf 0 items
               "([], logger INFO (Found (length items)) w1)"]
        show ?thesis using False
          by (simp add: organize_files_def pr Inr w1 items percentages_def Let_def)
      qed
    qed
  qed
qed

lemma progress_restore_record [simp]:
  "progress (snd (snd (restore_record s d st))) = progress (snd (snd st))"
  by (auto simp: restore_record_def split: prod.splits sum.splits exn.splits)

lemma progress_restore_loop:
  assumes "progress_callback self" "0 < n"
  shows "progress (snd (snd (restore_loop self n i rs st)))
           = progress (snd (snd st)) @ map (\<lambda>k. of_nat k / of_nat n * 100) [Suc i..<Suc i + length rs]"
  using assms
proof (induction rs arbitrary: i st)
  case Nil
  then show ?case by simp
next
  case (Cons r rs)
  obtain s d where r: "r = (s, d)" by (cases r)
  obtain c fo w where st: "restore_record s d st = (c, fo, w)"
    by (cases "restore_record s d st") auto
  have w: "progress w = progress (snd (snd st))"
    using progress_restore_record [of s d st] st by simp
  have u: "[Suc i..<Suc i + length (r # rs)] = Suc i # [Suc (Suc i)..<Suc (Suc i) + length rs]"
    by (simp add: upt_rec)
  from u show ?case
    using Cons.IH [OF Cons.prems, of "Suc i" "(c, fo, report_progress self (Suc i) n w)"]
      Cons.prems
    by (simp add: r st w report_progress_def)
qed

lemma progress_cleanup_walk [simp]: "progress (cleanup_walk self p w) = progress w"
  by (induction self p w rule: cleanup_walk.induct)
     (subst cleanup_walk.simps, auto split: sum.splits)

lemma progress_cleanup_loop [simp]: "progress (cleanup_loop self ps w) = progress w"
  by (induction ps arbitrary: w) auto

lemma progress_update_history [simp]: "progress (update_history self st w) = progress w"
  by (auto simp: update_history_def split: sum.splits)

lemma load_history_stack_world:
  "files (snd (load_history_stack self w)) = files w
   \<and> progress (snd (load_history_stack self w)) = progress w"
  by (auto simp: load_history_stack_def split: load_outcome.splits content.splits)

lemma load_history_stack_logger:
  "fst (load_history_stack self (logger l m w)) = fst (load_history_stack self w)"
  by (auto simp: load_history_stack_def split: load_outcome.splits content.splits)

lemma undo_organization_progress:
  assumes "progress_callback self"
  shows "progress (snd (undo_organization self w))
           = progress w @
             (case fst (load_history_stack self w) of
                Inl e \<Rightarrow> []
              | Inr stack \<Rightarrow> if stack = [] then [] else percentages (length (last stack)))"
proof -
  obtain r w1 where l: "load_history_stack self (logger INFO Attempting w) = (r, w1)"
    by (cases "load_history_stack self (logger INFO Attempting w)")
  have w1: "progress w1 = progress w"
    using load_history_stack_world [of self "logger INFO Attempting w"] l by simp
  have r: "fst (load_history_stack self w) = r"
    using load_history_stack_logger [of self INFO Attempting w] l by simp
  show ?thesis
  proof (cases r)
    case (Inl e)
    then show ?thesis by (simp add: undo_organization_def l r w1)
  next
    case (Inr stack)
    show ?thesis
    proof (cases "stack = [] \<or> last stack = []")
      case True
      then show ?thesis
        by (auto simp: undo_organization_def l r Inr w1 percentages_def Let_def)
    next
      case False
      then have n: "0 < length (last stack)" by simp
      obtain c fo w2 where rl:
        "restore_loop self (length (last stack)) 0 (rev (last stack)) (0, [], w1) = (c, fo, w2)"
        by (cases "restore_loop self (length (last stack)) 0 (rev (last stack)) (0, [], w1)")
      have "progress w2 = progress w1 @ percentages (length (last stack))"
        using progress_restore_loop [OF assms n, of 0 "rev (last stack)" "(0, [], w1)"] rl
        by (simp add: percentages_def)
      then show ?thesis using False
        by (simp add: undo_organization_def l r Inr w1 Let_def rl)
    qed
  qed
qed

lemma percentages_length: "length (percentages n) = n"
  by (simp add: percentages_def)

lemma percentages_range:
  assumes "p \<in> set (percentages n)"
  shows "0 \<le> p \<and> p \<le> 100"
proof -
  from assms obtain i where i: "1 \<le> i" "i \<le> n" and p: "p = of_nat i / of_nat n * 100"
    by (auto simp: percentages_def)
  have "(of_nat i :: rat) / of_nat n \<le> 1"
    using i by (simp add: divide_le_eq_1)
  then have "(of_nat i :: rat) / of_nat n * 100 \<le> 1 * 100"
    by (rule mult_right_mono) simp
  moreover have "0 \<le> (of_nat i :: rat) / of_nat n * 100" by simp
  ultimately show ?thesis using p by simp
qed

lemma percentages_increasing: "sorted_wrt (<) (percentages n)"
proof -
  have "(of_nat i :: rat) / of_nat n * 100 < of_nat j / of_nat n * 100"
    if "i \<in> set [1..<Suc n]" "j \<in> set [1..<Suc n]" "i < j" for i j
    using that by (simp add: divide_strict_right_mono del: upt_Suc)
  then have "sorted_wrt (\<lambda>i j. (of_nat i :: rat) / of_nat n * 100 < of_nat j / of_nat n * 100)
               [1..<Suc n]"
    by (rule sorted_wrt_mono_rel [of "[1..<Suc n]" "(<)"]) (simp_all del: upt_Suc)
  then show ?thesis
    unfolding percentages_def sorted_wrt_map .
qed


section \<open>Replaying a batch\<close>

lemma restore_record_replay:
  assumes "restore_record s d (c, fo, w) = (c', fo', w')"
  shows "c' = c + (if moved_back (files w) (s, d) then 1 else 0)"
    and "files w' = replay_one (files w) (s, d)"
    and "logs w' = logs w @ [replay_entry (files w) (s, d)]"
  using assms
  by (auto simp: restore_record_def moved_back_def replay_one_def replay_entry_def
        split: sum.splits exn.splits)

lemma restore_loop_replay:
  assumes "restore_loop self n i rs (c, fo, w) = (c', fo', w')"
  shows "c' = c + restored (files w) rs \<and> files w' = replay (files w) rs
         \<and> logs w' = logs w @ replay_log (files w) rs"
  using assms
proof (induction rs arbitrary: i c fo w)
  case Nil
  then show ?case by (simp add: replay_def)
next
  case (Cons r rs)
  obtain s d where r: "r = (s, d)" by (cases r)
  obtain c1 fo1 w1 where st: "restore_record s d (c, fo, w) = (c1, fo1, w1)"
    by (cases "restore_record s d (c, fo, w)") auto
  note one = restore_record_replay [OF st]
  from Cons.prems have
    "restore_loop self n (Suc i) rs (c1, fo1, report_progress self (Suc i) n w1) = (c', fo', w')"
    by (simp add: r st)
  from Cons.IH [OF this] show ?case
    using one by (simp add: r replay_def)
qed

lemma load_history_stack_files:
  assumes "files w = files w'"
  shows "fst (load_history_stack self w) = fst (load_history_stack self w')"
  using assms
  by (auto simp: load_history_stack_def split: load_outcome.splits content.splits)


lemma load_then_undo:
  assumes "fst (load_history_stack self w) = Inr stack"
  obtains w1 where "load_history_stack self (logger INFO Attempting w) = (Inr stack, w1)"
    and "files w1 = files w" and "progress w1 = progress w"
proof -
  have "fst (load_history_stack self (logger INFO Attempting w)) = Inr stack"
    using assms load_history_stack_files [of "logger INFO Attempting w" w self] by simp
  then obtain w1 where l: "load_history_stack self (logger INFO Attempting w) = (Inr stack, w1)"
    by (cases "load_history_stack self (logger INFO Attempting w)") auto
  moreover have "files w1 = files w" "progress w1 = progress w"
    using load_history_stack_world [of self "logger INFO Attempting w"] l by simp_all
  ultimately show ?thesis using that by blast
qed

lemma undo_returns_restored:
  assumes "fst (load_history_stack self w) = Inr stack" "stack \<noteq> []" "last stack \<noteq> []"
  shows "fst (undo_organization self w) = restored (files w) (rev (last stack))"
proof -
  from assms(1) obtain w1
    where l: "load_history_stack self (logger INFO Attempting w) = (Inr stack, w1)"
      and w1: "files w1 = files w"
    by (rule load_then_undo)
  obtain c fo w2 where rl:
    "restore_loop self (length (last stack)) 0 (rev (last stack)) (0, [], w1) = (c, fo, w2)"
    by (cases "restore_loop self (length (last stack)) 0 (rev (last stack)) (0, [], w1)")
  from restore_loop_replay [OF rl] have "c = restored (files w) (rev (last stack))"
    by (simp add: w1)
  then show ?thesis using assms(2,3) by (simp add: undo_organization_def l rl Let_def)
qed

lemma replay_log_length: "length (replay_log f rs) = length rs"
  by (induction rs arbitrary: f) auto

lemma shutil_move_missing:
  assumes "lookup f d = None"
  shows "\<exists>e. shutil_move f d s = Inl e"
proof -
  from assms have "d \<noteq> []" by (auto simp: lookup_def split: if_splits)
  with assms show ?thesis
    by (auto simp: shutil_move_def rename_or_copy_def is_dir_def Let_def)
qed

text \<open>
  Claim C6. For a history stack whose last batch is not empty, \<^verbatim>\<open>undo_organization\<close>
  returns the number of records moved back when the batch is replayed in reverse. The loop
  of step 1, run on the reversed batch, ends with that count, with the filesystem of the
  replay, and with one log entry for each record: no record ends the loop. A record whose
  destination is missing is not moved back, leaves the filesystem as it was, and is logged
  as a warning or an error.
\<close>

theorem undo_replays_in_reverse:
  "(fst (load_history_stack self w) = Inr stack \<and> stack \<noteq> [] \<and> last stack \<noteq> []
      \<longrightarrow> fst (undo_organization self w) = restored (files w) (rev (last stack)))
   \<and> (restore_loop self n 0 (rev last_batch) (0, [], w) = (c, fo, w')
      \<longrightarrow> c = restored (files w) (rev last_batch)
          \<and> files w' = replay (files w) (rev last_batch)
          \<and> logs w' = logs w @ replay_log (files w) (rev last_batch))
   \<and> length (replay_log f (rev last_batch)) = length last_batch
   \<and> (lookup f d = None
      \<longrightarrow> \<not> moved_back f (s, d) \<and> replay_one f (s, d) = f
          \<and> fst (replay_entry f (s, d)) \<noteq> INFO)"
proof -
  have "\<not> moved_back f (s, d) \<and> replay_one f (s, d) = f \<and> fst (replay_entry f (s, d)) \<noteq> INFO"
    if "lookup f d = None"
  proof -
    from shutil_move_missing [OF that] obtain e where "shutil_move f d s = Inl e" by blast
    then show ?thesis
      by (auto simp: moved_back_def replay_one_def replay_entry_def split: exn.splits)
  qed
  then show ?thesis
    using undo_returns_restored [of self w stack]
      restore_loop_replay [of self n 0 "rev last_batch" 0 "[]" w c fo w']
    by (simp add: replay_log_length)
qed

theorem undo_replays_in_reverse_witness:
  "fst (load_history_stack me
          (snd (organize_files me ''By Extension'' ''Year'' [] [] False start)))
     = Inr [[(home @ [''a.jpg''], home @ [''jpg'', ''a.jpg'']),
             (home @ [''b.jpg''], home @ [''jpg'', ''b.jpg'']),
             (home @ [''notes.txt''], home @ [''txt'', ''notes.txt''])]]
   \<and> fst (undo_organization me
              (snd (organize_files me ''By Extension'' ''Year'' [] [] False start)))
       = restored (files (snd (organize_files me ''By Extension'' ''Year'' [] [] False start)))
           (rev [(home @ [''a.jpg''], home @ [''jpg'', ''a.jpg'']),
                 (home @ [''b.jpg''], home @ [''jpg'', ''b.jpg'']),
                 (home @ [''notes.txt''], home @ [''txt'', ''notes.txt''])])
   \<and> lookup photos (home @ [''gone'']) = None
   \<and> \<not> moved_back photos (home @ [''back''], home @ [''gone''])"
proof -
  let ?w = "snd (organize_files me ''By Extension'' ''Year'' [] [] False start)"
  let ?b = "[(home @ [''a.jpg''], home @ [''jpg'', ''a.jpg'']),
             (home @ [''b.jpg''], home @ [''jpg'', ''b.jpg'']),
             (home @ [''notes.txt''], home @ [''txt'', ''notes.txt''])]"
  have l: "fst (load_history_stack me ?w) = Inr [?b]"
    by code_simp
  have g: "lookup photos (home @ [''gone'']) = None"
    by code_simp
  show ?thesis
    using undo_replays_in_reverse
            [where self = me and w = ?w and stack = "[?b]" and f = photos
               and d = "home @ [''gone'']" and s = "home @ [''back'']"]
      l g
    by simp
qed

text \<open>
  Claim C9. When the history stack is not empty and its last batch is empty,
  \<^verbatim>\<open>undo_organization\<close> returns 0, leaves the filesystem as it was and reports no
  progress: the history file still holds the same stack, the empty batch included.
\<close>

theorem undo_empty_batch:
  assumes "fst (load_history_stack self w) = Inr stack" "stack \<noteq> []" "last stack = []"
  shows "fst (undo_organization self w) = 0
         \<and> files (snd (undo_organization self w)) = files w
         \<and> progress (snd (undo_organization self w)) = progress w
         \<and> fst (load_history_stack self (snd (undo_organization self w))) = Inr stack"
proof -
  from assms(1) obtain w1
    where l: "load_history_stack self (logger INFO Attempting w) = (Inr stack, w1)"
      and w1: "files w1 = files w" "progress w1 = progress w"
    by (rule load_then_undo)
  have u: "undo_organization self w = (0, w1)"
    using assms(2,3) by (simp add: undo_organization_def l Let_def)
  show ?thesis
    using load_history_stack_files [of w1 w self] assms(1) by (simp add: u w1)
qed

theorem undo_empty_batch_witness:
  "fst (load_history_stack me stale) = Inr [[]]
   \<and> fst (undo_organization me stale) = 0
   \<and> files (snd (undo_organization me stale)) = files stale
   \<and> fst (load_history_stack me (snd (undo_organization me stale))) = Inr [[]]"
proof -
  have l: "fst (load_history_stack me stale) = Inr [[]]"
    by code_simp
  show ?thesis
    using undo_empty_batch [of me stale "[[]]"] l by simp
qed

text \<open>
  Claim C8. With a progress callback, a call of \<^verbatim>\<open>organize_files\<close> that returns a number
  reports \<open>percentages n\<close> for the \<open>n\<close> files it found, whatever became of each file,
  and a call that raises reports nothing. A call of \<^verbatim>\<open>undo_organization\<close> reports
  \<open>percentages n\<close> for the \<open>n\<close> records of the last batch, and nothing when the stack
  is empty. \<open>percentages n\<close> has \<open>n\<close> entries, none for \<open>n = 0\<close>; they lie between 0
  and 100 and increase strictly.
\<close>

theorem progress_reports:
  assumes "progress_callback self"
  shows
    "progress (snd (organize_files self sort_mode granularity keyword_rules folder_rules
                      create_parent_folders w))
       = progress w @
         (case fst (organize_files self sort_mode granularity keyword_rules folder_rules
                      create_parent_folders w) of
            Inl e \<Rightarrow> []
          | Inr k \<Rightarrow> (case collect_files self (files w) of
                       Inl e \<Rightarrow> [] | Inr items \<Rightarrow> percentages (length items)))
     \<and> progress (snd (undo_organization self w))
       = progress w @
         (case fst (load_history_stack self w) of
            Inl e \<Rightarrow> []
          | Inr stack \<Rightarrow> if stack = [] then [] else percentages (length (last stack)))
     \<and> length (percentages n) = n
     \<and> (\<forall>p \<in> set (percentages n). 0 \<le> p \<and> p \<le> 100)
     \<and> sorted_wrt (<) (percentages n)"
  using organize_files_progress [OF assms] undo_organization_progress [OF assms]
    percentages_length percentages_range percentages_increasing
  by blast

theorem progress_reports_witness:
  "progress_callback me
   \<and> progress (snd (organize_files me ''By Extension'' ''Year'' [] [] False start))
       = percentages 3
   \<and> progress (snd (undo_organization me start)) = []"
proof -
  have cb: "progress_callback me"
    by (simp add: me_def)
  have r: "fst (organize_files me ''By Extension'' ''Year'' [] [] False start) = Inr 3"
    by code_simp
  have c: "collect_files me (files start)
             = Inr [home @ [''a.jpg''], home @ [''b.jpg''], home @ [''notes.txt'']]"
    by code_simp
  have l: "fst (load_history_stack me start) = Inr []"
    by code_simp
  have p: "progress start = []"
    by (simp add: start_def)
  show ?thesis
    using progress_reports [OF cb, of "''By Extension''" "''Year''" "[]" "[]" False start]
      cb r c l p
    by (simp add: numeral_3_eq_3)
qed

section \<open>How the operations change the filesystem\<close>

lemma lookup_Nil [simp]: "lookup f [] = Some Dir"
  by (simp add: lookup_def)

lemma lookup_update:
  "lookup (AList.update k v f) q = (if q = [] then Some Dir else if q = k then Some v else lookup f q)"
  by (simp add: lookup_def update_conv')

lemma lookup_delete:
  "lookup (AList.delete k f) q = (if q = [] then Some Dir else if q = k then None else lookup f q)"
  by (simp add: lookup_def delete_conv')

lemma lookup_append_dir:
  "lookup (f @ [(p, Dir)]) q = (if lookup f q = None \<and> q = p then Some Dir else lookup f q)"
  by (auto simp: lookup_def map_add_def split: option.splits)

lemma parent_append [simp]: "parent (p @ [n]) = p"
  by (simp add: parent_def)

lemma name_append [simp]: "name (p @ [n]) = n"
  by (simp add: name_def)

lemma prefix_parent: "p \<noteq> [] \<Longrightarrow> prefix q (parent p) \<Longrightarrow> prefix q p"
  by (cases p rule: rev_cases) (auto simp: parent_def)

lemma mkdir_parents_frame:
  assumes "mkdir_parents f p = Inr f1"
  shows "lookup f1 q = lookup f q \<or> (lookup f q = None \<and> lookup f1 q = Some Dir \<and> prefix q p)"
  using assms
proof (induction f p arbitrary: f1 rule: mkdir_parents.induct)
  case (1 f p)
  show ?case
  proof (cases "lookup f p")
    case (Some n)
    with "1.prems" show ?thesis
      by (subst (asm) mkdir_parents.simps) (auto split: node.splits)
  next
    case None
    then have pne: "p \<noteq> []" by (auto simp: lookup_def split: if_splits)
    show ?thesis
    proof (cases "lookup f (parent p)")
      case (Some n)
      with None "1.prems" have "f1 = f @ [(p, Dir)]"
        by (subst (asm) mkdir_parents.simps) (auto split: node.splits)
      then show ?thesis
        by (cases "lookup f q = None \<and> q = p") (auto simp: lookup_append_dir)
    next
      case pn: None
      with None "1.prems" obtain f' where f': "mkdir_parents f (parent p) = Inr f'"
        and f1: "f1 = f' @ [(p, Dir)]"
        by (subst (asm) mkdir_parents.simps) (auto split: sum.splits)
      from "1.IH" [OF None pn f'] have
        "lookup f' q = lookup f q \<or> (lookup f q = None \<and> lookup f' q = Some Dir \<and> prefix q (parent p))" .
      then show ?thesis
        using None pne
        by (cases "lookup f' q = None \<and> q = p")
           (auto simp: f1 lookup_append_dir dest: prefix_parent)
    qed
  qed
qed

lemma not_prefix_parent: "p \<noteq> [] \<Longrightarrow> \<not> prefix p (parent p)"
  by (cases p rule: rev_cases) (auto simp: parent_def dest: prefix_length_le)

lemma mkdir_parents_is_dir:
  assumes "mkdir_parents f p = Inr f1"
  shows "lookup f1 p = Some Dir"
proof (cases "lookup f p")
  case None
  then have pne: "p \<noteq> []" by (auto simp: lookup_def split: if_splits)
  show ?thesis
  proof (cases "lookup f (parent p)")
    case (Some n)
    with None assms have "f1 = f @ [(p, Dir)]"
      by (subst (asm) mkdir_parents.simps) (auto split: node.splits)
    with None show ?thesis by (simp add: lookup_append_dir)
  next
    case pn: None
    with None assms obtain f' where f': "mkdir_parents f (parent p) = Inr f'"
      and f1: "f1 = f' @ [(p, Dir)]"
      by (subst (asm) mkdir_parents.simps) (auto split: sum.splits)
    from mkdir_parents_frame [OF f', of p] None pne have "lookup f' p = None"
      by (auto dest: not_prefix_parent)
    then show ?thesis by (simp add: f1 lookup_append_dir)
  qed
next
  case (Some n)
  with assms show ?thesis
    by (subst (asm) mkdir_parents.simps) (auto split: node.splits)
qed

lemma closed_iff:
  "closed f \<longleftrightarrow> (\<forall>p. p \<noteq> [] \<and> lookup f p \<noteq> None \<longrightarrow> lookup f (parent p) = Some Dir)"
proof
  assume c: "closed f"
  show "\<forall>p. p \<noteq> [] \<and> lookup f p \<noteq> None \<longrightarrow> lookup f (parent p) = Some Dir"
  proof (intro allI impI)
    fix p assume "p \<noteq> [] \<and> lookup f p \<noteq> None"
    then have "map_of f p \<noteq> None" by (auto simp: lookup_def)
    then have "p \<in> fst ` set f"
      by (simp add: map_of_eq_None_iff)
    with c show "lookup f (parent p) = Some Dir"
      by (auto simp: closed_def list_all_iff)
  qed
next
  assume a: "\<forall>p. p \<noteq> [] \<and> lookup f p \<noteq> None \<longrightarrow> lookup f (parent p) = Some Dir"
  show "closed f"
    unfolding closed_def list_all_iff
  proof
    fix p assume "p \<in> set (map fst f)"
    then have "map_of f p \<noteq> None"
      by (simp add: map_of_eq_None_iff)
    then have p: "p = [] \<or> lookup f p \<noteq> None" by (simp add: lookup_def)
    show "lookup f (parent p) = Some Dir"
    proof (cases "p = []")
      case True
      then show ?thesis by (simp add: parent_def)
    next
      case False
      with p a show ?thesis by blast
    qed
  qed
qed

lemma mkdir_parents_closed:
  assumes "mkdir_parents f p = Inr f1" "closed f"
  shows "closed f1"
  using assms
proof (induction f p arbitrary: f1 rule: mkdir_parents.induct)
  case (1 f p)
  show ?case
  proof (cases "lookup f p")
    case (Some n)
    with "1.prems" show ?thesis
      by (subst (asm) mkdir_parents.simps) (auto split: node.splits)
  next
    case None
    show ?thesis
    proof (cases "lookup f (parent p)")
      case (Some n)
      with None "1.prems" have f1: "f1 = f @ [(p, Dir)]" and n: "n = Dir"
        by (subst (asm) mkdir_parents.simps, auto split: node.splits)+
      show ?thesis
        using "1.prems"(2) Some None unfolding closed_iff f1 n
        by (auto simp: lookup_append_dir)
    next
      case pn: None
      with None "1.prems" obtain f' where f': "mkdir_parents f (parent p) = Inr f'"
        and f1: "f1 = f' @ [(p, Dir)]"
        by (subst (asm) mkdir_parents.simps) (auto split: sum.splits)
      have c: "closed f'" using "1.IH" [OF None pn f' "1.prems"(2)] .
      have d: "lookup f' (parent p) = Some Dir" using f' by (rule mkdir_parents_is_dir)
      show ?thesis
        using c d unfolding closed_iff f1
        by (auto simp: lookup_append_dir)
    qed
  qed
qed

lemma file_not_root: "lookup f i = Some (File t c) \<Longrightarrow> i \<noteq> []"
  by (auto simp: lookup_def split: if_splits)

lemma none_not_root: "lookup f i = None \<Longrightarrow> i \<noteq> []"
  by (auto simp: lookup_def split: if_splits)

lemma rename_file:
  assumes "lookup f i = Some (File t c)" "rename_or_copy f i r = Inr f2"
  shows "(i = r \<or> lookup f (parent r) = Some Dir)
         \<and> (\<forall>q. lookup f2 q
               = (if q = [] then Some Dir else if q = r then Some (File t c)
                  else if q = i then None else lookup f q))"
  using assms file_not_root [OF assms(1)]
  by (auto simp: rename_or_copy_def lookup_update lookup_delete
        split: if_splits option.splits node.splits)

lemma shutil_move_file:
  assumes "lookup f i = Some (File t c)" "shutil_move f i dst = Inr f2"
  shows "\<exists>r. (r = dst \<or> r = dst @ [name i])
           \<and> lookup f r \<noteq> Some Dir
           \<and> (i = r \<or> lookup f (parent r) = Some Dir)
           \<and> (r = dst @ [name i] \<longrightarrow> lookup f dst = Some Dir \<and> lookup f r = None)
           \<and> (r = dst \<longrightarrow> lookup f dst \<noteq> Some Dir)
           \<and> (\<forall>q. lookup f2 q
                 = (if q = [] then Some Dir else if q = r then Some (File t c)
                    else if q = i then None else lookup f q))"
proof (cases "is_dir f dst")
  case True
  with assms have ne: "i \<noteq> dst" by (auto simp: is_dir_def)
  with True assms(2) have ex: "\<not> exists f (dst @ [name i])"
    and r: "rename_or_copy f i (dst @ [name i]) = Inr f2"
    by (auto simp: shutil_move_def Let_def split: if_splits)
  from ex have "lookup f (dst @ [name i]) = None" by (simp add: exists_def)
  with rename_file [OF assms(1) r] True
  show ?thesis by (intro exI [of _ "dst @ [name i]"]) (auto simp: is_dir_def)
next
  case False
  with assms(2) have r: "rename_or_copy f i dst = Inr f2"
    by (simp add: shutil_move_def)
  from False have "dst \<noteq> dst @ [name i]" by simp
  with rename_file [OF assms(1) r] False
  show ?thesis by (intro exI [of _ dst]) (auto simp: is_dir_def)
qed

lemma stays_refl: "stays a a"
  by (simp add: stays_def)

lemma stays_trans: "stays a b \<Longrightarrow> stays b c \<Longrightarrow> stays a c"
  by (auto simp: stays_def)

lemma keeps_refl: "keeps n g g"
  by (simp add: keeps_def stays_refl)

lemma keeps_trans: "keeps n g g' \<Longrightarrow> keeps n g' g'' \<Longrightarrow> keeps n g g''"
  unfolding keeps_def by (meson stays_trans)

lemma mkdir_parents_keeps:
  assumes "mkdir_parents g D = Inr g1"
  shows "keeps n g g1"
  unfolding keeps_def stays_def
  using mkdir_parents_frame [OF assms] by (metis option.distinct(1))

lemma name_eq: "q \<noteq> [] \<Longrightarrow> name q = last q"
  by (simp add: name_def)

lemma shutil_move_file_keeps:
  assumes "lookup f i = Some (File t c)" "shutil_move f i dst = Inr f2" "name dst = name i"
  shows "keeps (name i) f f2"
proof -
  from shutil_move_file [OF assms(1,2)] obtain r where r: "r = dst \<or> r = dst @ [name i]"
    and nd: "lookup f r \<noteq> Some Dir"
    and l: "\<And>q. lookup f2 q
               = (if q = [] then Some Dir else if q = r then Some (File t c)
                  else if q = i then None else lookup f q)"
    by blast
  from r assms(3) have nr: "name r = name i" by auto
  show ?thesis
    unfolding keeps_def stays_def
  proof (intro allI conjI impI)
    fix q assume "lookup f q = Some Dir"
    with nd assms(1) show "lookup f2 q = Some Dir" by (auto simp: l)
  next
    fix q assume "name q \<noteq> name i"
    with nr have "q \<noteq> r" "q \<noteq> i" by auto
    then show "lookup f2 q = lookup f q \<or> (lookup f q = None \<and> lookup f2 q = Some Dir)"
      by (simp add: l)
  qed
qed

lemma move_file_keeps:
  assumes "lookup (files w) i = Some (File t c)"
  shows "keeps (name i) (files w) (files (snd (snd (move_file i D (B, w)))))"
proof (cases "mkdir_parents (files w) D")
  case (Inl e)
  then show ?thesis by (simp add: move_file_def keeps_refl)
next
  case (Inr f1)
  have k1: "keeps (name i) (files w) f1" using Inr by (rule mkdir_parents_keeps)
  show ?thesis
  proof (cases "shutil_move f1 i (D @ [name i])")
    case (Inl e)
    then show ?thesis using k1 Inr by (simp add: move_file_def)
  next
    case f2: (Inr f2)
    from assms mkdir_parents_frame [OF Inr, of i] have "lookup f1 i = Some (File t c)" by auto
    from shutil_move_file_keeps [OF this f2] have "keeps (name i) f1 f2" by simp
    with k1 have "keeps (name i) (files w) f2" by (rule keeps_trans)
    then show ?thesis using Inr f2 by (simp add: move_file_def Let_def)
  qed
qed

lemma move_file_batch:
  "fst (snd (move_file i D (B, w))) = B
   \<or> fst (snd (move_file i D (B, w))) = B @ [(i, D @ [name i])]"
  by (simp add: move_file_def Let_def split: sum.splits)

lemma keyword_loop_cases:
  "keyword_loop self i m hw = hw
   \<or> (\<exists>D. keyword_loop self i m hw = snd (move_file i D hw))"
proof (induction m)
  case Nil
  then show ?case by simp
next
  case (Cons a m)
  obtain key folder where a: "a = (key, folder)" by (cases a)
  show ?case
  proof (cases "contains key (lower (name i))")
    case True
    then have "keyword_loop self i (a # m) hw
                 = snd (move_file i (path_join (source_directory self) folder) hw)"
      by (simp add: a)
    then show ?thesis by blast
  next
    case False
    then have "keyword_loop self i (a # m) hw = keyword_loop self i m hw"
      by (simp add: a)
    with Cons show ?thesis by simp
  qed
qed

lemma process_item_cases:
  "(fst (process_item self sm g m cpf i hw) = fst hw
      \<and> files (snd (process_item self sm g m cpf i hw)) = files (snd hw))
   \<or> (\<exists>D. process_item self sm g m cpf i hw = snd (move_file i D hw))"
proof (cases "sm = ''By Keyword''")
  case True
  then have "process_item self sm g m cpf i hw = keyword_loop self i m hw"
    by (simp add: process_item_def)
  with keyword_loop_cases [of self i m hw] show ?thesis by auto
next
  case nk: False
  show ?thesis
  proof (cases "sm = ''By Time''")
    case True
    show ?thesis
    proof (cases "stat_mtime (files (snd hw)) i")
      case (Inl e)
      with True show ?thesis by (simp add: process_item_def)
    next
      case (Inr mt)
      show ?thesis
      proof (cases "time_folder_path mt g cpf")
        case None
        with True Inr show ?thesis by (simp add: process_item_def)
      next
        case (Some folder)
        with True Inr have "process_item self sm g m cpf i hw
                 = snd (move_file i (source_directory self @ folder) hw)"
          by (simp add: process_item_def)
        then show ?thesis by blast
      qed
    qed
  next
    case nt: False
    show ?thesis
    proof (cases "sm = ''By Extension''")
      case True
      with nk nt have "process_item self sm g m cpf i hw
               = snd (move_file i (path_join (source_directory self) (ext_folder_name (name i))) hw)"
        by (simp add: process_item_def)
      then show ?thesis by blast
    next
      case False
      with nk nt show ?thesis by (simp add: process_item_def)
    qed
  qed
qed

lemma process_item_keeps:
  assumes "lookup (files w) i = Some (File t c)"
  shows "keeps (name i) (files w) (files (snd (process_item self sm g m cpf i (B, w))))"
proof -
  from process_item_cases [of self sm g m cpf i "(B, w)"] show ?thesis
  proof
    assume "fst (process_item self sm g m cpf i (B, w)) = fst (B, w)
            \<and> files (snd (process_item self sm g m cpf i (B, w))) = files (snd (B, w))"
    then show ?thesis by (simp add: keeps_refl)
  next
    assume "\<exists>D. process_item self sm g m cpf i (B, w) = snd (move_file i D (B, w))"
    then obtain D where "process_item self sm g m cpf i (B, w) = snd (move_file i D (B, w))"
      by blast
    then show ?thesis using move_file_keeps [OF assms, of D B] by simp
  qed
qed

lemma process_item_batch:
  "fst (process_item self sm g m cpf i (B, w)) = B
   \<or> (\<exists>d. fst (process_item self sm g m cpf i (B, w)) = B @ [(i, d)])"
proof -
  from process_item_cases [of self sm g m cpf i "(B, w)"] show ?thesis
  proof
    assume "fst (process_item self sm g m cpf i (B, w)) = fst (B, w)
            \<and> files (snd (process_item self sm g m cpf i (B, w))) = files (snd (B, w))"
    then show ?thesis by simp
  next
    assume "\<exists>D. process_item self sm g m cpf i (B, w) = snd (move_file i D (B, w))"
    then obtain D where D: "process_item self sm g m cpf i (B, w) = snd (move_file i D (B, w))"
      by blast
    from move_file_batch [of i D B w] show ?thesis
    proof
      assume "fst (snd (move_file i D (B, w))) = B"
      then show ?thesis by (simp add: D)
    next
      assume "fst (snd (move_file i D (B, w))) = B @ [(i, D @ [name i])]"
      then have "fst (process_item self sm g m cpf i (B, w)) = B @ [(i, D @ [name i])]"
        by (simp add: D)
      then show ?thesis by blast
    qed
  qed
qed

lemma children_set:
  "k \<in> set (children f d) \<longleftrightarrow> k \<noteq> [] \<and> butlast k = d \<and> k \<in> fst ` set f"
  by (auto simp: children_def)

lemma children_distinct: "distinct (map fst f) \<Longrightarrow> distinct (children f d)"
  by (simp add: children_def)

lemma collect_files_items:
  assumes "collect_files self f = Inr items"
  shows "lookup f (source_directory self) = Some Dir"
    and "\<And>k. k \<in> set items \<Longrightarrow>
           \<exists>n t c. k = source_directory self @ [n] \<and> n \<notin> set own_files
                    \<and> lookup f k = Some (File t c)"
    and "distinct (map fst f) \<Longrightarrow> distinct items"
proof -
  from assms have d: "lookup f (source_directory self) = Some Dir"
    and items: "items = filter (\<lambda>item. is_file f item \<and> name item \<notin> set own_files)
                          (children f (source_directory self))"
    by (auto simp: collect_files_def iterdir_def split: option.splits node.splits sum.splits)
  show "lookup f (source_directory self) = Some Dir" by (rule d)
  show "distinct items" if "distinct (map fst f)"
    using that by (simp add: items children_distinct)
  show "\<exists>n t c. k = source_directory self @ [n] \<and> n \<notin> set own_files
                  \<and> lookup f k = Some (File t c)" if "k \<in> set items" for k
  proof -
    from that have k: "k \<noteq> []" "butlast k = source_directory self" "is_file f k"
      "name k \<notin> set own_files"
      by (auto simp: items children_set)
    from k(1,2) have "k = source_directory self @ [last k]"
      by (metis append_butlast_last_id)
    moreover from k(3) obtain t c where "lookup f k = Some (File t c)"
      by (auto simp: is_file_def split: option.splits node.splits)
    moreover from k(1,4) have "last k \<notin> set own_files" by (simp add: name_def)
    ultimately show ?thesis by blast
  qed
qed

lemma keeps_stays: "keeps n g g' \<Longrightarrow> name q \<noteq> n \<Longrightarrow> stays (lookup g q) (lookup g' q)"
  by (simp add: keeps_def)

lemma keeps_dir: "keeps n g g' \<Longrightarrow> lookup g q = Some Dir \<Longrightarrow> lookup g' q = Some Dir"
  by (auto simp: keeps_def)

lemma keeps_file:
  "keeps n g g' \<Longrightarrow> name q \<noteq> n \<Longrightarrow> lookup g q = Some (File t c)
     \<Longrightarrow> lookup g' q = Some (File t c)"
  by (auto simp: keeps_def stays_def)

lemma organize_loop_frame:
  assumes "distinct items"
    and "\<forall>k \<in> set items. \<exists>n t c. k = d @ [n] \<and> n \<noteq> h \<and> lookup (files w) k = Some (File t c)"
  shows "stays (lookup (files w) (d @ [h]))
               (lookup (files (snd (organize_loop self sm g m cpf tot idx items (B, w)))) (d @ [h]))
         \<and> (lookup (files w) q = Some Dir
              \<longrightarrow> lookup (files (snd (organize_loop self sm g m cpf tot idx items (B, w)))) q
                    = Some Dir)
         \<and> length (fst (organize_loop self sm g m cpf tot idx items (B, w))) \<ge> length B"
  using assms
proof (induction items arbitrary: idx B w)
  case Nil
  then show ?case by (simp add: stays_refl)
next
  case (Cons i items)
  from Cons.prems(2) obtain n t c where i: "i = d @ [n]" "n \<noteq> h"
    "lookup (files w) i = Some (File t c)"
    by auto
  obtain B1 w1 where p: "process_item self sm g m cpf i (B, w) = (B1, w1)"
    by (cases "process_item self sm g m cpf i (B, w)")
  have k: "keeps n (files w) (files w1)"
    using process_item_keeps [OF i(3), of self sm g m cpf B] p i(1) by simp
  have b: "length B \<le> length B1"
    using process_item_batch [of self sm g m cpf i B w] p by auto
  let ?w2 = "report_progress self (idx + 1) tot w1"
  have rest: "\<forall>k \<in> set items. \<exists>n t c. k = d @ [n] \<and> n \<noteq> h
                 \<and> lookup (files ?w2) k = Some (File t c)"
  proof
    fix j assume j: "j \<in> set items"
    with Cons.prems(2) obtain n' t' c' where j': "j = d @ [n']" "n' \<noteq> h"
      "lookup (files w) j = Some (File t' c')"
      by auto
    from j Cons.prems(1) have "j \<noteq> i" by auto
    with i(1) j'(1) have "name j \<noteq> n" by simp
    from keeps_file [OF k this j'(3)] j' show
      "\<exists>n t c. j = d @ [n] \<and> n \<noteq> h \<and> lookup (files ?w2) j = Some (File t c)"
      by auto
  qed
  from Cons.prems(1) have di: "distinct items" by simp
  note IH = Cons.IH [OF di rest, of "idx + 1" B1]
  have s: "stays (lookup (files w) (d @ [h])) (lookup (files w1) (d @ [h]))"
    using keeps_stays [OF k, of "d @ [h]"] i(2) by simp
  have loop: "organize_loop self sm g m cpf tot idx (i # items) (B, w)
                = organize_loop self sm g m cpf tot (idx + 1) items (B1, ?w2)"
    by (simp add: p Let_def)
  show ?case
    unfolding loop using IH s b keeps_dir [OF k, of q]
    by (auto intro: stays_trans)
qed

lemma history_file_parent [simp]: "parent (history_file self) = source_directory self"
  by (simp add: history_file_def)

lemma history_file_not_root [simp]: "history_file self \<noteq> []"
  by (simp add: history_file_def)

lemma load_history_stack_lookup:
  "fst (load_history_stack self w)
     = Inr (case lookup (files w) (history_file self) of
              Some (File t (JsonArray stack)) \<Rightarrow> stack | _ \<Rightarrow> [])"
  by (auto simp: load_history_stack_def open_and_load_def exists_def
        split: option.splits node.splits content.splits)

lemma save_history_appends:
  assumes "B \<noteq> []" "lookup (files w) (source_directory self) = Some Dir"
    and "fst (load_history_stack self w) = Inr stack"
    and "lookup (files (save_history self B w)) (history_file self) \<noteq> Some Dir"
  shows "fst (load_history_stack self (save_history self B w)) = Inr (stack @ [B])"
proof -
  obtain w1 where l: "load_history_stack self w = (Inr stack, w1)"
    using assms(3) by (cases "load_history_stack self w") auto
  have w1: "files w1 = files w"
    using load_history_stack_world [of self w] l by simp
  show ?thesis
  proof (cases "write_json (files w) (history_file self) (clock self) (stack @ [B])")
    case (Inl e)
    with assms(1) have "files (save_history self B w) = files w"
      by (simp add: save_history_def l w1)
    with assms(4) have nd: "lookup (files w) (history_file self) \<noteq> Some Dir" by simp
    with Inl assms(2) show ?thesis
      by (auto simp: write_json_def split: option.splits node.splits)
  next
    case (Inr f)
    with assms(1) have s: "files (save_history self B w) = f"
      by (simp add: save_history_def l w1)
    from Inr have "f = AList.update (history_file self) (File (clock self) (JsonArray (stack @ [B]))) (files w)"
      by (auto simp: write_json_def split: option.splits node.splits)
    then have "lookup f (history_file self) = Some (File (clock self) (JsonArray (stack @ [B])))"
      by (simp add: lookup_update)
    then show ?thesis by (simp add: load_history_stack_lookup s)
  qed
qed

lemma organize_files_appends:
  assumes "distinct (map fst (files w))"
    and "fst (organize_files self sm g kr fr cpf w) = Inr n" "0 < n"
    and "fst (load_history_stack self w) = Inr stack"
    and "\<not> is_dir (files (snd (organize_files self sm g kr fr cpf w))) (history_file self)"
  shows "\<exists>b. fst (load_history_stack self (snd (organize_files self sm g kr fr cpf w)))
               = Inr (stack @ [b]) \<and> length b = n"
proof -
  obtain r w1 where pr: "prepare_rules sm kr fr (logger INFO (Starting sm) w) = (r, w1)"
    by (cases "prepare_rules sm kr fr (logger INFO (Starting sm) w)")
  have w1: "files w1 = files w"
    using prepare_rules_world [of sm kr fr "logger INFO (Starting sm) w"] pr by simp
  from assms(2) pr obtain m where r: "r = Inr m"
    by (cases r) (auto simp: organize_files_def)
  from assms(2) pr r obtain items where c: "collect_files self (files w) = Inr items"
    by (cases "collect_files self (files w)") (auto simp: organize_files_def w1)
  from assms(2,3) pr r c have ne: "items \<noteq> []"
    by (auto simp: organize_files_def w1)
  let ?w2 = "logger INFO (Found (length items)) w1"
  obtain B w3 where lp: "organize_loop self sm g m cpf (length items) 0 items ([], ?w2) = (B, w3)"
    by (cases "organize_loop self sm g m cpf (length items) 0 items ([], ?w2)")
  have res: "organize_files self sm g kr fr cpf w
               = (Inr (length B), logger INFO (Complete (length B)) (save_history self B w3))"
    using ne by (simp add: organize_files_def pr r c w1 lp Let_def)
  with assms(2,3) have n: "length B = n" and Bne: "B \<noteq> []" by auto
  note it = collect_files_items [OF c]
  have pre: "\<forall>k \<in> set items. \<exists>n t c. k = source_directory self @ [n]
               \<and> n \<noteq> ''.organizer_history.json'' \<and> lookup (files ?w2) k = Some (File t c)"
  proof
    fix k assume "k \<in> set items"
    from it(2) [OF this] obtain n t c where "k = source_directory self @ [n]"
      "n \<notin> set own_files" "lookup (files w) k = Some (File t c)" by blast
    then show "\<exists>n t c. k = source_directory self @ [n]
               \<and> n \<noteq> ''.organizer_history.json'' \<and> lookup (files ?w2) k = Some (File t c)"
      by (auto simp: own_files_def w1)
  qed
  from organize_loop_frame [OF it(3) [OF assms(1)] pre,
         where self = self and sm = sm and g = g and m = m and cpf = cpf
           and tot = "length items" and idx = 0 and B = "[]" and q = "source_directory self"]
  have st: "stays (lookup (files w) (history_file self)) (lookup (files w3) (history_file self))"
    and sd: "lookup (files w3) (source_directory self) = Some Dir"
    using it(1) by (simp_all add: lp w1 history_file_def)
  from assms(5) have nd: "lookup (files (save_history self B w3)) (history_file self) \<noteq> Some Dir"
    by (simp add: res is_dir_def)
  have "lookup (files w3) (history_file self) \<noteq> Some Dir"
  proof
    assume d: "lookup (files w3) (history_file self) = Some Dir"
    then have "files (save_history self B w3) = files w3"
      using load_history_stack_world [of self w3]
      by (auto simp: save_history_def write_json_def split: prod.splits sum.splits)
    with nd d show False by simp
  qed
  with st have "lookup (files w3) (history_file self) = lookup (files w) (history_file self)"
    by (auto simp: stays_def)
  then have "fst (load_history_stack self w3) = Inr stack"
    using assms(4) by (simp add: load_history_stack_lookup)
  from save_history_appends [OF Bne sd this nd]
  have "fst (load_history_stack self (save_history self B w3)) = Inr (stack @ [B])" .
  then have "fst (load_history_stack self (snd (organize_files self sm g kr fr cpf w)))
               = Inr (stack @ [B])"
    by (simp add: res load_history_stack_lookup)
  with n show ?thesis by blast
qed

lemma update_history_result:
  assumes "lookup (files (update_history self rest w)) (history_file self) \<noteq> Some Dir"
    and "lookup (files (update_history self rest w)) (source_directory self) = Some Dir"
  shows "fst (load_history_stack self (update_history self rest w)) = Inr rest
         \<and> (rest = [] \<longrightarrow> lookup (files (update_history self rest w)) (history_file self) = None)"
proof (cases "rest = []")
  case True
  show ?thesis
  proof (cases "remove (files w) (history_file self)")
    case (Inl e)
    with True have f: "files (update_history self rest w) = files w"
      by (simp add: update_history_def)
    with Inl assms(1) have "lookup (files w) (history_file self) = None"
      by (auto simp: remove_def split: option.splits node.splits)
    with True f show ?thesis by (simp add: load_history_stack_lookup)
  next
    case (Inr f)
    with True have f: "files (update_history self rest w) = f"
      by (simp add: update_history_def)
    from Inr have "f = AList.delete (history_file self) (files w)"
      by (auto simp: remove_def split: option.splits node.splits)
    then have "lookup f (history_file self) = None" by (simp add: lookup_delete)
    with True f show ?thesis by (simp add: load_history_stack_lookup)
  qed
next
  case False
  show ?thesis
  proof (cases "write_json (files w) (history_file self) (clock self) rest")
    case (Inl e)
    with False have f: "files (update_history self rest w) = files w"
      by (simp add: update_history_def)
    with Inl assms show ?thesis
      by (auto simp: write_json_def split: option.splits node.splits)
  next
    case (Inr f)
    with False have f: "files (update_history self rest w) = f"
      by (simp add: update_history_def)
    from Inr have "f = AList.update (history_file self) (File (clock self) (JsonArray rest)) (files w)"
      by (auto simp: write_json_def split: option.splits node.splits)
    then have "lookup f (history_file self) = Some (File (clock self) (JsonArray rest))"
      by (simp add: lookup_update)
    with False f show ?thesis by (simp add: load_history_stack_lookup)
  qed
qed

lemma undo_organization_pops:
  assumes "fst (load_history_stack self w) = Inr stack" "stack \<noteq> []" "last stack \<noteq> []"
    and "\<not> is_dir (files (snd (undo_organization self w))) (history_file self)"
    and "is_dir (files (snd (undo_organization self w))) (source_directory self)"
  shows "fst (load_history_stack self (snd (undo_organization self w))) = Inr (butlast stack)
         \<and> (butlast stack = []
              \<longrightarrow> lookup (files (snd (undo_organization self w))) (history_file self) = None)"
proof -
  from assms(1) obtain w1
    where l: "load_history_stack self (logger INFO Attempting w) = (Inr stack, w1)"
    by (rule load_then_undo)
  obtain c fo w2 where rl:
    "restore_loop self (length (last stack)) 0 (rev (last stack)) (0, [], w1) = (c, fo, w2)"
    by (cases "restore_loop self (length (last stack)) 0 (rev (last stack)) (0, [], w1)")
  let ?w3 = "cleanup_loop self (sorted_folders fo) w2"
  have u: "snd (undo_organization self w) = update_history self (butlast stack) ?w3"
    using assms(2,3) by (simp add: undo_organization_def l rl Let_def)
  from update_history_result [of self "butlast stack" ?w3] assms(4,5)
  show ?thesis by (simp add: u is_dir_def)
qed

lemma undo_organization_empty:
  assumes "fst (load_history_stack self w) = Inr []"
  shows "fst (undo_organization self w) = 0
         \<and> files (snd (undo_organization self w)) = files w
         \<and> progress (snd (undo_organization self w)) = progress w"
proof -
  from assms obtain w1
    where l: "load_history_stack self (logger INFO Attempting w) = (Inr [], w1)"
      and w1: "files w1 = files w" "progress w1 = progress w"
    by (rule load_then_undo)
  show ?thesis by (simp add: undo_organization_def l w1)
qed


text \<open>
  Claim C2, as stated, fails for a history stack whose last batch is empty: the stack is
  not empty, yet \<^verbatim>\<open>undo_organization\<close> returns before it rewrites the history file, and
  the depth stays 1.
\<close>

theorem undo_keeps_depth:
  "fst (load_history_stack me stale) = Inr [[]]
   \<and> fst (undo_organization me stale) = 0
   \<and> fst (load_history_stack me (snd (undo_organization me stale))) = Inr [[]]"
  by code_simp

text \<open>
  Claim C2, amended. A call of \<^verbatim>\<open>organize_files\<close> that moves \<open>n > 0\<close> files, and
  after which the history path is not a directory, appends exactly one batch, of \<open>n\<close>
  records, to the stack in the history file. A call of \<^verbatim>\<open>undo_organization\<close> on a
  stack whose last batch is not empty, after which the history path is not a directory and
  the source directory is one, removes exactly the last batch, and leaves no history file
  when the stack has become empty. On an empty stack \<^verbatim>\<open>undo_organization\<close> returns 0
  and changes neither the filesystem nor the progress.
\<close>

theorem history_depth:
  "(distinct (map fst (files w))
      \<and> fst (organize_files self sort_mode granularity keyword_rules folder_rules
                create_parent_folders w) = Inr n
      \<and> 0 < n
      \<and> fst (load_history_stack self w) = Inr stack
      \<and> \<not> is_dir
            (files (snd (organize_files self sort_mode granularity keyword_rules folder_rules
                           create_parent_folders w)))
            (history_file self)
      \<longrightarrow> (\<exists>b. b \<noteq> [] \<and> length b = n
                \<and> fst (load_history_stack self
                         (snd (organize_files self sort_mode granularity keyword_rules
                                 folder_rules create_parent_folders w)))
                    = Inr (stack @ [b])))
   \<and> (fst (load_history_stack self w) = Inr stack \<and> stack \<noteq> [] \<and> last stack \<noteq> []
      \<and> \<not> is_dir (files (snd (undo_organization self w))) (history_file self)
      \<and> is_dir (files (snd (undo_organization self w))) (source_directory self)
      \<longrightarrow> fst (load_history_stack self (snd (undo_organization self w)))
            = Inr (butlast stack)
          \<and> (butlast stack = []
               \<longrightarrow> lookup (files (snd (undo_organization self w))) (history_file self)
                     = None))
   \<and> (fst (load_history_stack self w) = Inr []
      \<longrightarrow> fst (undo_organization self w) = 0
          \<and> files (snd (undo_organization self w)) = files w
          \<and> progress (snd (undo_organization self w)) = progress w)"
proof (intro conjI impI)
  assume a: "distinct (map fst (files w))
      \<and> fst (organize_files self sort_mode granularity keyword_rules folder_rules
                create_parent_folders w) = Inr n
      \<and> 0 < n
      \<and> fst (load_history_stack self w) = Inr stack
      \<and> \<not> is_dir
            (files (snd (organize_files self sort_mode granularity keyword_rules folder_rules
                           create_parent_folders w)))
            (history_file self)"
  then obtain b where
    "fst (load_history_stack self
            (snd (organize_files self sort_mode granularity keyword_rules folder_rules
                    create_parent_folders w)))
       = Inr (stack @ [b])" "length b = n"
    using organize_files_appends
            [of w self sort_mode granularity keyword_rules folder_rules create_parent_folders
                n stack]
    by blast
  moreover from this a have "b \<noteq> []" by auto
  ultimately show
    "\<exists>b. b \<noteq> [] \<and> length b = n
       \<and> fst (load_history_stack self
                (snd (organize_files self sort_mode granularity keyword_rules folder_rules
                        create_parent_folders w)))
           = Inr (stack @ [b])"
    by blast
next
  assume a: "fst (load_history_stack self w) = Inr stack \<and> stack \<noteq> [] \<and> last stack \<noteq> []
      \<and> \<not> is_dir (files (snd (undo_organization self w))) (history_file self)
      \<and> is_dir (files (snd (undo_organization self w))) (source_directory self)"
  then have p:
    "fst (load_history_stack self (snd (undo_organization self w))) = Inr (butlast stack)
     \<and> (butlast stack = []
          \<longrightarrow> lookup (files (snd (undo_organization self w))) (history_file self) = None)"
    using undo_organization_pops [of self w stack] by blast
  from p show
    "fst (load_history_stack self (snd (undo_organization self w))) = Inr (butlast stack)"
    by blast
  assume "butlast stack = []"
  with p show "lookup (files (snd (undo_organization self w))) (history_file self) = None"
    by blast
next
  assume a: "fst (load_history_stack self w) = Inr []"
  from undo_organization_empty [OF a]
  show "fst (undo_organization self w) = 0"
    and "files (snd (undo_organization self w)) = files w"
    and "progress (snd (undo_organization self w)) = progress w"
    by blast+
qed

theorem history_depth_witness:
  "distinct (map fst (files start))
   \<and> fst (organize_files me ''By Extension'' ''Year'' [] [] False start) = Inr 3
   \<and> fst (load_history_stack me start) = Inr []
   \<and> (\<exists>b. b \<noteq> [] \<and> length b = 3
         \<and> fst (load_history_stack me
                  (snd (organize_files me ''By Extension'' ''Year'' [] [] False start)))
             = Inr [b])
   \<and> fst (load_history_stack me
            (snd (undo_organization me
                    (snd (organize_files me ''By Extension'' ''Year'' [] [] False start)))))
       = Inr []
   \<and> lookup
         (files (snd (undo_organization me
                        (snd (organize_files me ''By Extension'' ''Year'' [] [] False start)))))
         (history_file me)
       = None
   \<and> fst (undo_organization me start) = 0"
proof -
  let ?o = "organize_files me ''By Extension'' ''Year'' [] [] False start"
  let ?b = "[(home @ [''a.jpg''], home @ [''jpg'', ''a.jpg'']),
             (home @ [''b.jpg''], home @ [''jpg'', ''b.jpg'']),
             (home @ [''notes.txt''], home @ [''txt'', ''notes.txt''])]"
  have d: "distinct (map fst (files start))"
    by code_simp
  have r: "fst ?o = Inr 3"
    by code_simp
  have l: "fst (load_history_stack me start) = Inr []"
    by code_simp
  have h: "\<not> is_dir (files (snd ?o)) (history_file me)"
    by code_simp
  have l2: "fst (load_history_stack me (snd ?o)) = Inr [?b]"
    by code_simp
  have h2: "\<not> is_dir (files (snd (undo_organization me (snd ?o)))) (history_file me)"
    by code_simp
  have s2: "is_dir (files (snd (undo_organization me (snd ?o)))) (source_directory me)"
    by code_simp
  from history_depth
         [of start me "''By Extension''" "''Year''" "[]" "[]" False 3 "[]"] d r l h
  have one: "\<exists>b. b \<noteq> [] \<and> length b = 3 \<and> fst (load_history_stack me (snd ?o)) = Inr [b]"
    and three: "fst (undo_organization me start) = 0"
    by simp_all
  from history_depth
         [of "snd ?o" me "''By Extension''" "''Year''" "[]" "[]" False 3 "[?b]"] l2 h2 s2
  have two: "fst (load_history_stack me (snd (undo_organization me (snd ?o)))) = Inr []"
    "lookup (files (snd (undo_organization me (snd ?o)))) (history_file me) = None"
    by simp_all
  show ?thesis using d r l one two three by blast
qed

end
